theory Spec2Isabelle
  imports Complex_Main "HOL-Library.Word" "HOL-Library.Multiset"
begin

section \<open>JavaScript numbers\<close>

text \<open>
  A JavaScript number is a finite value, one of the two infinities, or NaN. Finite values
  are modelled as reals with exact arithmetic (no rounding, no overflow to infinity, one
  zero). \<open>undefined\<close> converts to NaN wherever the source computes with it.
\<close>

datatype jsnum = NaN | NegInf | Fin real | PosInf

text \<open>The relational operators \<open><\<close> and \<open><=\<close>: false as soon as one side is NaN.\<close>

fun js_lt :: "jsnum \<Rightarrow> jsnum \<Rightarrow> bool" where
  "js_lt NaN _ = False"
| "js_lt _ NaN = False"
| "js_lt _ NegInf = False"
| "js_lt PosInf _ = False"
| "js_lt NegInf _ = True"
| "js_lt (Fin a) (Fin b) = (a < b)"
| "js_lt (Fin a) PosInf = True"

fun js_le :: "jsnum \<Rightarrow> jsnum \<Rightarrow> bool" where
  "js_le NaN _ = False"
| "js_le _ NaN = False"
| "js_le NegInf _ = True"
| "js_le _ PosInf = True"
| "js_le (Fin a) (Fin b) = (a \<le> b)"
| "js_le (Fin a) NegInf = False"
| "js_le PosInf _ = False"

definition js_gt :: "jsnum \<Rightarrow> jsnum \<Rightarrow> bool" where
  "js_gt a b = js_lt b a"

section \<open>Change detection: the state machine\<close>

text \<open>
  The constructor reads each option with \<open>options.x || default\<close>: a missing option and
  the falsy value 0 both give the default.
\<close>

record options =
  opt_scanInterval :: "real option"
  opt_scaleDownFactor :: "real option"
  opt_changeThreshold :: "real option"
  opt_lowChangeThreshold :: "real option"
  opt_stabilityFrames :: "real option"
  opt_pixelDiffThreshold :: "real option"

record config =
  scanInterval :: real
  scaleDownFactor :: real
  changeThreshold :: real
  lowChangeThreshold :: real
  stabilityFrames :: real
  pixelDiffThreshold :: real

definition or_default :: "real option \<Rightarrow> real \<Rightarrow> real" where
  "or_default v d = (case v of None \<Rightarrow> d | Some x \<Rightarrow> if x = 0 then d else x)"

definition mk_config :: "options \<Rightarrow> config" where
  "mk_config opts =
     \<lparr> scanInterval = or_default (opt_scanInterval opts) 80,
       scaleDownFactor = or_default (opt_scaleDownFactor opts) 4,
       changeThreshold = or_default (opt_changeThreshold opts) 0.015,
       lowChangeThreshold = or_default (opt_lowChangeThreshold opts) 0.01,
       stabilityFrames = or_default (opt_stabilityFrames opts) 3,
       pixelDiffThreshold = or_default (opt_pixelDiffThreshold opts) 20 \<rparr>"

definition no_options :: options where
  "no_options =
     \<lparr> opt_scanInterval = None, opt_scaleDownFactor = None, opt_changeThreshold = None,
       opt_lowChangeThreshold = None, opt_stabilityFrames = None,
       opt_pixelDiffThreshold = None \<rparr>"

text \<open>\<open>new ChangeDetector()\<close>, as index.js constructs it.\<close>

definition default_config :: config where
  "default_config = mk_config no_options"

datatype dstate = Idle | ChangeDetected | WaitingForStability

text \<open>
  The two fields \<open>processStateChange\<close> reads and writes, with the statistics counter it
  bumps; the detector below extends this record with the other fields of the class. The
  second component of the result tells whether the tick completed the pattern, which is
  where the source calls \<open>onTrigger\<close>.
\<close>

record machine =
  state :: dstate
  stableFrameCount :: nat
  triggeredCount :: nat

definition initial_machine :: machine where
  "initial_machine = \<lparr> state = Idle, stableFrameCount = 0, triggeredCount = 0 \<rparr>"

definition processStateChange ::
  "config \<Rightarrow> jsnum \<Rightarrow> 'a machine_scheme \<Rightarrow> 'a machine_scheme \<times> bool" where
  "processStateChange cfg changePercent m =
     (case state m of
        Idle \<Rightarrow>
          if js_gt changePercent (Fin (changeThreshold cfg))
          then (m\<lparr>state := ChangeDetected, stableFrameCount := 0\<rparr>, False)
          else (m, False)
      | ChangeDetected \<Rightarrow>
          if js_lt changePercent (Fin (lowChangeThreshold cfg))
          then (m\<lparr>state := WaitingForStability, stableFrameCount := 1\<rparr>, False)
          else (m, False)
      | WaitingForStability \<Rightarrow>
          if js_lt changePercent (Fin (lowChangeThreshold cfg)) then
            (let m1 = m\<lparr>stableFrameCount := stableFrameCount m + 1\<rparr> in
             if stabilityFrames cfg \<le> real (stableFrameCount m1)
             then (m1\<lparr>triggeredCount := triggeredCount m1 + 1,
                       state := Idle, stableFrameCount := 0\<rparr>, True)
             else (m1, False))
          else if js_gt changePercent (Fin (changeThreshold cfg))
          then (m\<lparr>state := ChangeDetected, stableFrameCount := 0\<rparr>, False)
          else (m\<lparr>stableFrameCount := 0\<rparr>, False))"

text \<open>
  Feeding a scripted sequence of fractions: the machine after the last one, and for each
  sample whether it fired.
\<close>

fun feed ::
  "config \<Rightarrow> 'a machine_scheme \<Rightarrow> jsnum list \<Rightarrow> 'a machine_scheme \<times> bool list" where
  "feed cfg m [] = (m, [])"
| "feed cfg m (p # ps) =
     (case processStateChange cfg p m of
        (m1, fired) \<Rightarrow> (case feed cfg m1 ps of (m2, fs) \<Rightarrow> (m2, fired # fs)))"


section \<open>The line filter\<close>

text \<open>
  A JavaScript string is a sequence of UTF-16 code units. The glyphs the filter names:
  the corner brackets U+300C and U+300D, the ASCII and the full-width parentheses, the
  horizontal bar U+2015 and the long vowel mark U+30FC.
\<close>

type_synonym jsstring = "16 word list"

definition open_quote :: "16 word" where "open_quote = 0x300C"
definition close_quote :: "16 word" where "close_quote = 0x300D"
definition ascii_open_paren :: "16 word" where "ascii_open_paren = 0x28"
definition ascii_close_paren :: "16 word" where "ascii_close_paren = 0x29"
definition wide_open_paren :: "16 word" where "wide_open_paren = 0xFF08"
definition wide_close_paren :: "16 word" where "wide_close_paren = 0xFF09"
definition horizontal_bar :: "16 word" where "horizontal_bar = 0x2015"
definition long_vowel_mark :: "16 word" where "long_vowel_mark = 0x30FC"

text \<open>The character class \<open>[\x00-\x7F]\<close> of the edge-stripping regular expression.\<close>

definition is_ascii :: "16 word \<Rightarrow> bool" where
  "is_ascii c = (c \<le> 0x7F)"

text \<open>What \<open>String.prototype.trim\<close> removes: white space and line terminators.\<close>

definition is_js_whitespace :: "16 word \<Rightarrow> bool" where
  "is_js_whitespace c =
     (c \<in> {0x09, 0x0A, 0x0B, 0x0C, 0x0D, 0x20, 0xA0, 0x1680, 0x2028, 0x2029, 0x202F,
            0x205F, 0x3000, 0xFEFF}
      \<or> (0x2000 \<le> c \<and> c \<le> 0x200A))"

text \<open>
  \<open>text.replace(/^[\x00-\x7F]+|[\x00-\x7F]+$/g, '')\<close>: the leading run and the trailing
  run of ASCII code units are removed.
\<close>

definition strip_ascii_edges :: "jsstring \<Rightarrow> jsstring" where
  "strip_ascii_edges s = rev (dropWhile is_ascii (rev (dropWhile is_ascii s)))"

definition trim :: "jsstring \<Rightarrow> jsstring" where
  "trim s = rev (dropWhile is_js_whitespace (rev (dropWhile is_js_whitespace s)))"

text \<open>
  \<open>String.prototype.replaceAll\<close> with a string pattern: one pass from the left over
  non-overlapping occurrences. An empty pattern matches before every unit and at the end.
\<close>

function replaceAll :: "'a list \<Rightarrow> 'a list \<Rightarrow> 'a list \<Rightarrow> 'a list" where
  "replaceAll pat rep [] = (if pat = [] then rep else [])"
| "replaceAll pat rep (c # cs) =
     (if pat = [] then rep @ c # replaceAll pat rep cs
      else if take (length pat) (c # cs) = pat
      then rep @ replaceAll pat rep (drop (length pat) (c # cs))
      else c # replaceAll pat rep cs)"
  by pat_completeness auto
termination
  by (relation "measure (\<lambda>(pat, rep, s). length s)") (auto simp: neq_Nil_conv)

text \<open>The "fix incomplete quotations" step, used for the quote pair and the parenthesis pair.\<close>

definition balance :: "16 word \<Rightarrow> 16 word \<Rightarrow> jsstring \<Rightarrow> jsstring" where
  "balance opening closing s =
     (let hasOpen = opening \<in> set s; hasClose = closing \<in> set s in
      if hasOpen \<and> \<not> hasClose then s @ [closing]
      else if \<not> hasOpen \<and> hasClose then opening # s
      else s)"

text \<open>
  Lines 7 to 38 of \<open>filterOCRLine\<close>: everything before the rolling buffer is consulted.
  \<open>None\<close> is the \<open>null\<close> returned for an empty result.
\<close>

definition normalizeLine :: "jsstring \<Rightarrow> jsstring option" where
  "normalizeLine text =
     (let filtered = strip_ascii_edges text;
          filtered = replaceAll [close_quote, close_quote] [close_quote] filtered;
          filtered = replaceAll [open_quote, open_quote] [open_quote] filtered;
          filtered = replaceAll [ascii_open_paren] [wide_open_paren] filtered;
          filtered = replaceAll [ascii_close_paren] [wide_close_paren] filtered;
          filtered = balance open_quote close_quote filtered;
          filtered = balance wide_open_paren wide_close_paren filtered;
          filtered = replaceAll [horizontal_bar] [long_vowel_mark] filtered;
          filtered = trim filtered
      in if filtered = [] then None else Some filtered)"

definition MAX_RECENT_LINES :: nat where "MAX_RECENT_LINES = 10"

text \<open>\<open>Array.prototype.at\<close>: \<open>None\<close> is \<open>undefined\<close>, returned out of range.\<close>

definition array_at :: "'a list \<Rightarrow> int \<Rightarrow> 'a option" where
  "array_at xs i =
     (let len = int (length xs); k = (if 0 \<le> i then i else len + i)
      in if k < 0 \<or> len \<le> k then None else Some (xs ! nat k))"

text \<open>
  \<open>filterOCRLine\<close> with the module-level buffer \<open>recentLines\<close> passed in and returned.
  The loose comparison \<open>undefined == filtered\<close> is false for every string.
\<close>

definition filterOCRLine :: "jsstring \<Rightarrow> jsstring list \<Rightarrow> jsstring option \<times> jsstring list" where
  "filterOCRLine text recentLines =
     (case normalizeLine text of
        None \<Rightarrow> (None, recentLines)
      | Some filtered \<Rightarrow>
          if array_at recentLines (int (length recentLines)) = Some filtered
          then (None, recentLines)
          else (let pushed = recentLines @ [filtered]
                in (Some filtered,
                    if MAX_RECENT_LINES < length pushed then tl pushed else pushed)))"

text \<open>Two adjacent occurrences of a glyph.\<close>

fun adjacent_pair :: "'a \<Rightarrow> 'a list \<Rightarrow> bool" where
  "adjacent_pair c (x # y # ys) = ((x = c \<and> y = c) \<or> adjacent_pair c (y # ys))"
| "adjacent_pair c _ = False"

section \<open>Arithmetic on JavaScript numbers\<close>

text \<open>
  The arithmetic operators and the \<open>Math\<close> functions the sources use. Every operation
  gives NaN on a NaN operand; the infinities follow IEEE 754 (with a divisor 0 taken as
  positive zero).
\<close>

fun js_neg :: "jsnum \<Rightarrow> jsnum" where
  "js_neg NaN = NaN"
| "js_neg NegInf = PosInf"
| "js_neg PosInf = NegInf"
| "js_neg (Fin a) = Fin (- a)"

fun js_add :: "jsnum \<Rightarrow> jsnum \<Rightarrow> jsnum" where
  "js_add NaN _ = NaN"
| "js_add _ NaN = NaN"
| "js_add PosInf NegInf = NaN"
| "js_add NegInf PosInf = NaN"
| "js_add PosInf _ = PosInf"
| "js_add _ PosInf = PosInf"
| "js_add NegInf _ = NegInf"
| "js_add _ NegInf = NegInf"
| "js_add (Fin a) (Fin b) = Fin (a + b)"

definition js_sub :: "jsnum \<Rightarrow> jsnum \<Rightarrow> jsnum" where
  "js_sub a b = js_add a (js_neg b)"

fun js_abs :: "jsnum \<Rightarrow> jsnum" where
  "js_abs NaN = NaN"
| "js_abs NegInf = PosInf"
| "js_abs PosInf = PosInf"
| "js_abs (Fin a) = Fin \<bar>a\<bar>"

fun js_mul :: "jsnum \<Rightarrow> jsnum \<Rightarrow> jsnum" where
  "js_mul NaN _ = NaN"
| "js_mul _ NaN = NaN"
| "js_mul (Fin a) (Fin b) = Fin (a * b)"
| "js_mul (Fin a) PosInf = (if a = 0 then NaN else if 0 < a then PosInf else NegInf)"
| "js_mul (Fin a) NegInf = (if a = 0 then NaN else if 0 < a then NegInf else PosInf)"
| "js_mul PosInf (Fin b) = (if b = 0 then NaN else if 0 < b then PosInf else NegInf)"
| "js_mul NegInf (Fin b) = (if b = 0 then NaN else if 0 < b then NegInf else PosInf)"
| "js_mul PosInf PosInf = PosInf"
| "js_mul NegInf NegInf = PosInf"
| "js_mul PosInf NegInf = NegInf"
| "js_mul NegInf PosInf = NegInf"

fun js_div :: "jsnum \<Rightarrow> jsnum \<Rightarrow> jsnum" where
  "js_div NaN _ = NaN"
| "js_div _ NaN = NaN"
| "js_div (Fin a) (Fin b) =
     (if b \<noteq> 0 then Fin (a / b)
      else if a = 0 then NaN else if 0 < a then PosInf else NegInf)"
| "js_div (Fin a) _ = Fin 0"
| "js_div PosInf (Fin b) = (if 0 \<le> b then PosInf else NegInf)"
| "js_div NegInf (Fin b) = (if 0 \<le> b then NegInf else PosInf)"
| "js_div _ _ = NaN"

fun js_floor :: "jsnum \<Rightarrow> jsnum" where
  "js_floor (Fin a) = Fin (of_int \<lfloor>a\<rfloor>)"
| "js_floor x = x"

text \<open>\<open>Math.min\<close> and \<open>Math.max\<close> of two arguments.\<close>

fun js_min :: "jsnum \<Rightarrow> jsnum \<Rightarrow> jsnum" where
  "js_min NaN _ = NaN"
| "js_min _ NaN = NaN"
| "js_min a b = (if js_le a b then a else b)"

fun js_max :: "jsnum \<Rightarrow> jsnum \<Rightarrow> jsnum" where
  "js_max NaN _ = NaN"
| "js_max _ NaN = NaN"
| "js_max a b = (if js_le a b then b else a)"

section \<open>Double-precision arithmetic\<close>

text \<open>
  The arithmetic of the recognition and detection reducers rounds. Every JavaScript
  number is an IEEE 754 binary64 value, and \<open>+\<close>, \<open>-\<close>, \<open>*\<close>, \<open>/\<close> return the exact result rounded
  to the nearest such value, ties to the even significand. \<open>binary64\<close> is that rounding:
  the quantum is \<open>2^(e - 52)\<close> for the binade \<open>2^e \<le> |x| < 2^(e + 1)\<close>, and \<open>2^-1074\<close> below
  the normal range (\<open>e < -1022\<close>); a rounded magnitude of \<open>2^1024\<close> or more overflows to an
  infinity.
  The two zeros are one.
\<close>

definition round_half_even :: "real \<Rightarrow> int" where
  "round_half_even y =
     (let f = \<lfloor>y\<rfloor>; d = y - of_int f
      in if d < 1 / 2 then f else if 1 / 2 < d then f + 1 else if even f then f else f + 1)"

definition min_exponent :: int where "min_exponent = - 1022"

definition overflow_threshold :: real where "overflow_threshold = 2 ^ 1024"

definition smallest_subnormal :: real where "smallest_subnormal = 2 powi (min_exponent - 52)"

definition quantum :: "real \<Rightarrow> real" where
  "quantum x = 2 powi (max \<lfloor>log 2 \<bar>x\<bar>\<rfloor> min_exponent - 52)"

definition binary64 :: "real \<Rightarrow> jsnum" where
  "binary64 x =
     (if x = 0 then Fin 0
      else let r = of_int (round_half_even (x / quantum x)) * quantum x
           in if overflow_threshold \<le> \<bar>r\<bar> then (if 0 < x then PosInf else NegInf)
              else Fin r)"

text \<open>Rounding the result of an exact operation: NaN and the infinities pass through.\<close>

fun fl :: "jsnum \<Rightarrow> jsnum" where
  "fl (Fin x) = binary64 x"
| "fl v = v"

definition fl_sub :: "jsnum \<Rightarrow> jsnum \<Rightarrow> jsnum" where
  "fl_sub a b = fl (js_sub a b)"

definition fl_mul :: "jsnum \<Rightarrow> jsnum \<Rightarrow> jsnum" where
  "fl_mul a b = fl (js_mul a b)"

definition fl_div :: "jsnum \<Rightarrow> jsnum \<Rightarrow> jsnum" where
  "fl_div a b = fl (js_div a b)"

text \<open>The binary64 values are integer multiples of the smallest subnormal.\<close>

definition on_grid :: "real \<Rightarrow> bool" where
  "on_grid r = (\<exists>k :: int. r = of_int k * smallest_subnormal)"

fun is_double :: "jsnum \<Rightarrow> bool" where
  "is_double (Fin r) = on_grid r"
| "is_double v = True"

section \<open>Change detection: the differ\<close>

text \<open>
  An \<open>ImageData\<close>: its \<open>data\<close> is a \<open>Uint8ClampedArray\<close> of RGBA bytes. The platform
  creates no \<open>ImageData\<close> with a zero width or height (\<open>getImageData\<close> throws), which
  \<open>wf_frame\<close> records together with the size of the buffer.
\<close>

record frame =
  width :: nat
  height :: nat
  data :: "8 word list"

definition wf_frame :: "frame \<Rightarrow> bool" where
  "wf_frame f = (0 < width f \<and> 0 < height f \<and> length (data f) = 4 * (width f * height f))"

text \<open>Reading a typed array as a number: \<open>undefined\<close> out of range, which arithmetic turns into NaN.\<close>

definition elem :: "8 word list \<Rightarrow> nat \<Rightarrow> jsnum" where
  "elem d i = (if i < length d then Fin (real (unat (d ! i))) else NaN)"

definition totalDiff :: "8 word list \<Rightarrow> 8 word list \<Rightarrow> nat \<Rightarrow> jsnum" where
  "totalDiff data1 data2 i =
     (let rDiff = js_abs (js_sub (elem data1 i) (elem data2 i));
          gDiff = js_abs (js_sub (elem data1 (i + 1)) (elem data2 (i + 1)));
          bDiff = js_abs (js_sub (elem data1 (i + 2)) (elem data2 (i + 2)))
      in js_add (js_add rDiff gDiff) bDiff)"

text \<open>The \<open>for\<close> loop of \<open>compareFrames\<close>, from index \<open>i\<close> with the count so far.\<close>

function diffLoop :: "real \<Rightarrow> 8 word list \<Rightarrow> 8 word list \<Rightarrow> nat \<Rightarrow> nat \<Rightarrow> nat" where
  "diffLoop thr data1 data2 i diffCount =
     (if i < length data1
      then diffLoop thr data1 data2 (i + 4)
             (if js_gt (totalDiff data1 data2 i) (Fin thr) then diffCount + 1 else diffCount)
      else diffCount)"
  by pat_completeness auto
termination
  by (relation "measure (\<lambda>(thr, data1, data2, i, diffCount). length data1 - i)") auto

declare diffLoop.simps [simp del]

definition compareFrames :: "config \<Rightarrow> frame \<Rightarrow> frame \<Rightarrow> jsnum" where
  "compareFrames cfg frame1 frame2 =
     (let data1 = data frame1; data2 = data frame2;
          diffCount = diffLoop (pixelDiffThreshold cfg) data1 data2 0 0;
          totalPixels = js_div (Fin (real (length data1))) (Fin 4)
      in js_div (Fin (real diffCount)) totalPixels)"

text \<open>
  The claim's reading of the differ: pixel \<open>k\<close> counts as changed when the absolute
  differences of its red, green and blue bytes sum to more than the threshold.
\<close>

definition pixel_changed :: "real \<Rightarrow> 8 word list \<Rightarrow> 8 word list \<Rightarrow> nat \<Rightarrow> bool" where
  "pixel_changed thr data1 data2 k =
     (thr < \<bar>real (unat (data1 ! (4 * k))) - real (unat (data2 ! (4 * k)))\<bar>
          + \<bar>real (unat (data1 ! (4 * k + 1))) - real (unat (data2 ! (4 * k + 1)))\<bar>
          + \<bar>real (unat (data1 ! (4 * k + 2))) - real (unat (data2 ! (4 * k + 2)))\<bar>)"

definition changed_fraction :: "real \<Rightarrow> frame \<Rightarrow> frame \<Rightarrow> real" where
  "changed_fraction thr frame1 frame2 =
     real (length (filter (pixel_changed thr (data frame1) (data frame2))
                     [0 ..< width frame1 * height frame1]))
     / real (width frame1 * height frame1)"

text \<open>Two frames of one pixel by two, differing in the second pixel by 0 + 10 + 11.\<close>

definition frame_a :: frame where
  "frame_a = \<lparr> width = 1, height = 2, data = [0, 0, 0, 255, 10, 10, 10, 255] \<rparr>"

definition frame_b :: frame where
  "frame_b = \<lparr> width = 1, height = 2, data = [0, 0, 0, 255, 10, 20, 21, 255] \<rparr>"

section \<open>Change detection: the sampler\<close>

text \<open>
  The \<open>ChangeDetector\<close> object: the state machine's fields, and for the video element,
  the crop settings, the callback and the interval timer whether each is set.
\<close>

record detector = machine +
  videoElement :: bool
  cropSettings :: bool
  onTrigger :: bool
  intervalId :: bool
  lastFrame :: "frame option"
  lastChangePercent :: jsnum




text \<open>
  One timer tick. The environment supplies whether the reading timer is paused
  (\<open>window.Timer && !window.Timer.isRunning\<close>) and the frame \<open>captureScaledFrame\<close>
  returns, \<open>None\<close> when it throws (the \<open>catch\<close> only logs). The result tells whether
  \<open>onTrigger\<close> was called. The source calls it just before the machine returns to idle;
  the callback does not touch the detector, so the order does not show.
\<close>

definition checkFrame :: "config \<Rightarrow> bool \<Rightarrow> frame option \<Rightarrow> detector \<Rightarrow> detector \<times> bool" where
  "checkFrame cfg timerPaused captured d =
     (if \<not> videoElement d \<or> \<not> cropSettings d then (d, False)
      else if timerPaused then (d, False)
      else case captured of
        None \<Rightarrow> (d, False)
      | Some currentFrame \<Rightarrow>
          (case lastFrame d of
             None \<Rightarrow> (d\<lparr>lastFrame := Some currentFrame\<rparr>, False)
           | Some previous \<Rightarrow>
               (let changePercent = compareFrames cfg previous currentFrame;
                    d1 = d\<lparr>lastChangePercent := changePercent\<rparr>;
                    (d2, fired) = processStateChange cfg changePercent d1
                in (d2\<lparr>lastFrame := Some currentFrame\<rparr>, fired \<and> onTrigger d))))"

section \<open>The page: sampler and OCR passes\<close>

text \<open>
  The state the handlers of index.js share: the detector, the busy flag, whether the
  window capture is initialized, the rolling buffer, and the lines handed to the display.
\<close>

record app =
  changeDetector :: detector
  isProcessing :: bool
  captureInitialized :: bool
  recentLines :: "jsstring list"
  emitted :: "jsstring list"

text \<open>
  \<open>performOCR\<close> is asynchronous. \<open>performOCR_begin\<close> is its synchronous part, up to the
  first \<open>await\<close>; \<open>performOCR_end\<close> is what runs once the screenshot and the recognition
  have settled, with the recognized text or a failure.
\<close>

definition performOCR_begin :: "app \<Rightarrow> app" where
  "performOCR_begin a =
     (if isProcessing a then a
      else if \<not> captureInitialized a then a
      else a\<lparr>isProcessing := True\<rparr>)"

datatype ocr_outcome = OcrFailed | OcrText jsstring

definition performOCR_end :: "ocr_outcome \<Rightarrow> app \<Rightarrow> app" where
  "performOCR_end outcome a =
     (case outcome of
        OcrFailed \<Rightarrow> a\<lparr>isProcessing := False\<rparr>
      | OcrText text \<Rightarrow>
          if text = [] then a\<lparr>isProcessing := False\<rparr>
          else (let singleLine = trim (filter (\<lambda>c. c \<noteq> 0x0A) text);
                    (filtered, buffer) = filterOCRLine singleLine (recentLines a);
                    a1 = a\<lparr>recentLines := buffer\<rparr>;
                    a2 = (case filtered of
                            Some line \<Rightarrow> a1\<lparr>emitted := emitted a1 @ [line]\<rparr>
                          | None \<Rightarrow> a1)
                in a2\<lparr>isProcessing := False\<rparr>))"

text \<open>
  The events of the single control thread: a timer tick, a click that asks for a manual
  pass, and the completion of the pass in flight.
\<close>

datatype event = Tick bool "frame option" | ManualOCR | OcrDone ocr_outcome

definition step :: "config \<Rightarrow> event \<Rightarrow> app \<Rightarrow> app" where
  "step cfg ev a =
     (case ev of
        Tick timerPaused captured \<Rightarrow>
          (let (d, fired) = checkFrame cfg timerPaused captured (changeDetector a);
               a1 = a\<lparr>changeDetector := d\<rparr>
           in if fired then performOCR_begin a1 else a1)
      | ManualOCR \<Rightarrow> performOCR_begin a
      | OcrDone outcome \<Rightarrow> if isProcessing a then performOCR_end outcome a else a)"




section \<open>Detection: merging overlapping boxes\<close>

text \<open>A box is the array \<open>[x1, y1, x2, y2]\<close>; a region is \<open>{box, score}\<close>.\<close>

type_synonym box = "jsnum \<times> jsnum \<times> jsnum \<times> jsnum"

record region =
  box :: box
  score :: jsnum

definition boxesOverlap :: "box \<Rightarrow> box \<Rightarrow> bool" where
  "boxesOverlap box1 box2 =
     (case box1 of (x1_1, y1_1, x2_1, y2_1) \<Rightarrow>
      case box2 of (x1_2, y1_2, x2_2, y2_2) \<Rightarrow>
        (let noOverlap = (js_le x2_1 x1_2 \<or> js_le x2_2 x1_1
                          \<or> js_le y2_1 y1_2 \<or> js_le y2_2 y1_1)
         in \<not> noOverlap))"

text \<open>
  The body of the \<open>for j\<close> loop inside \<open>while (changed)\<close>: an unused box that overlaps a box
  of the current group joins the group. The state is the group (in push order), the
  set \<open>used\<close> and the flag \<open>changed\<close>.
\<close>

definition scanStep ::
  "region list \<Rightarrow> nat \<Rightarrow> nat list \<times> nat set \<times> bool \<Rightarrow> nat list \<times> nat set \<times> bool" where
  "scanStep regions j s =
     (case s of (grp, used, changed) \<Rightarrow>
        if j \<in> used then s
        else if list_ex (\<lambda>groupIdx. boxesOverlap (box (regions ! j)) (box (regions ! groupIdx)))
                  grp
        then (grp @ [j], insert j used, True)
        else s)"

text \<open>One pass of the \<open>for j\<close> loop, entered with \<open>changed = false\<close>.\<close>

definition scanPass :: "region list \<Rightarrow> nat list \<Rightarrow> nat set \<Rightarrow> nat list \<times> nat set \<times> bool" where
  "scanPass regions grp used =
     fold (scanStep regions) [0 ..< length regions] (grp, used, False)"

text \<open>A pass that sets \<open>changed\<close> has marked a box that was not used before.\<close>

lemma scanStep_mono: "fst (snd s) \<subseteq> fst (snd (scanStep regions j s))"
  by (auto simp: scanStep_def split: prod.splits)

lemma fold_scanStep_mono: "fst (snd s) \<subseteq> fst (snd (fold (scanStep regions) js s))"
proof (induction js arbitrary: s)
  case Nil
  then show ?case by simp
next
  case (Cons j js)
  show ?case using scanStep_mono[of s regions j] Cons.IH[of "scanStep regions j s"] by auto
qed

lemma fold_scanStep_changed:
  assumes "snd (snd (fold (scanStep regions) js s))" "\<not> snd (snd s)"
  shows "\<exists>j \<in> set js. j \<notin> fst (snd s) \<and> j \<in> fst (snd (fold (scanStep regions) js s))"
  using assms
proof (induction js arbitrary: s)
  case Nil
  then show ?case by simp
next
  case (Cons j js)
  show ?case
  proof (cases "snd (snd (scanStep regions j s))")
    case True
    then have "j \<notin> fst (snd s) \<and> j \<in> fst (snd (scanStep regions j s))"
      using Cons.prems(2) by (auto simp: scanStep_def split: prod.splits if_splits)
    then show ?thesis
      using fold_scanStep_mono[of "scanStep regions j s" regions js] by auto
  next
    case False
    then have e: "scanStep regions j s = s"
      by (auto simp: scanStep_def split: prod.splits if_splits)
    show ?thesis using Cons.IH[of s] Cons.prems e by auto
  qed
qed

lemma scanPass_changed:
  assumes "snd (snd (scanPass regions grp used))"
  shows "\<exists>j < length regions. j \<notin> used \<and> j \<in> fst (snd (scanPass regions grp used))"
  using fold_scanStep_changed[of regions "[0 ..< length regions]" "(grp, used, False)"] assms
  by (auto simp: scanPass_def)

lemma scanPass_mono: "used \<subseteq> fst (snd (scanPass regions grp used))"
  using fold_scanStep_mono[of "(grp, used, False)" regions "[0 ..< length regions]"]
  by (simp add: scanPass_def)

text \<open>The \<open>while (changed)\<close> loop: passes are repeated until one adds nothing.\<close>

function growGroup :: "region list \<Rightarrow> nat list \<Rightarrow> nat set \<Rightarrow> nat list \<times> nat set" where
  "growGroup regions grp used =
     (let r = scanPass regions grp used
      in if snd (snd r) then growGroup regions (fst r) (fst (snd r))
         else (fst r, fst (snd r)))"
  by pat_completeness auto
termination
proof (relation "measure (\<lambda>(regions, grp, used). card ({..<length regions} - used))")
  show "wf (measure (\<lambda>(regions, grp, used). card ({..<length regions} - used)))"
    by simp
next
  fix regions :: "region list" and grp :: "nat list" and used :: "nat set" and r
  assume r: "r = scanPass regions grp used" and c: "snd (snd r)"
  have "{..<length regions} - fst (snd r) \<subset> {..<length regions} - used"
    using scanPass_changed[of regions grp used] scanPass_mono[of used regions grp] r c
    by auto
  then have "card ({..<length regions} - fst (snd r)) < card ({..<length regions} - used)"
    by (intro psubset_card_mono) simp_all
  then show "((regions, fst r, fst (snd r)), (regions, grp, used))
              \<in> measure (\<lambda>(regions, grp, used). card ({..<length regions} - used))"
    by simp
qed

declare growGroup.simps [simp del]

text \<open>The body of the outer \<open>for i\<close> loop: an unused box seeds a new group.\<close>

definition seedStep ::
  "region list \<Rightarrow> nat \<Rightarrow> nat list list \<times> nat set \<Rightarrow> nat list list \<times> nat set" where
  "seedStep regions i s =
     (case s of (groups, used) \<Rightarrow>
        if i \<in> used then s
        else (case growGroup regions [i] (insert i used) of
                (grp, used') \<Rightarrow> (groups @ [grp], used')))"

definition overlapGroups :: "region list \<Rightarrow> nat list list" where
  "overlapGroups regions = fst (fold (seedStep regions) [0 ..< length regions] ([], {}))"

text \<open>The union box and the maximal score of one group, folded from the infinities.\<close>

definition mergeGroup :: "region list \<Rightarrow> nat list \<Rightarrow> region" where
  "mergeGroup regions grp =
     (case fold (\<lambda>idx (minX, minY, maxX, maxY, maxScore).
                   case box (regions ! idx) of (x1, y1, x2, y2) \<Rightarrow>
                     (js_min minX x1, js_min minY y1, js_max maxX x2, js_max maxY y2,
                      js_max maxScore (score (regions ! idx))))
             grp (PosInf, PosInf, NegInf, NegInf, NegInf)
      of (minX, minY, maxX, maxY, maxScore) \<Rightarrow>
        \<lparr> box = (minX, minY, maxX, maxY), score = maxScore \<rparr>)"

definition mergeOverlappingBoxes :: "region list \<Rightarrow> region list" where
  "mergeOverlappingBoxes regions =
     (if length regions = 0 then []
      else map (mergeGroup regions) (overlapGroups regions))"

text \<open>
  The vocabulary of the merge claims: the overlap test between two input boxes given by
  their indices, the graph it induces on the indices, and the connected component of an
  index.
\<close>

definition overlaps :: "region list \<Rightarrow> nat \<Rightarrow> nat \<Rightarrow> bool" where
  "overlaps regions i j = boxesOverlap (box (regions ! i)) (box (regions ! j))"

definition overlapEdges :: "region list \<Rightarrow> (nat \<times> nat) set" where
  "overlapEdges regions =
     {(i, j). i < length regions \<and> j < length regions \<and> overlaps regions i j}"

definition component :: "region list \<Rightarrow> nat \<Rightarrow> nat set" where
  "component regions i = {j. (i, j) \<in> (overlapEdges regions)\<^sup>*}"

text \<open>
  What holds of the group being grown from the group \<open>g0\<close> and the set \<open>u0\<close>: it keeps
  its seed, it has no repetition, its boxes are input boxes reachable from the seed
  through overlaps, and \<open>used\<close> has gained exactly the boxes that joined.
\<close>

definition group_inv ::
  "region list \<Rightarrow> nat list \<Rightarrow> nat set \<Rightarrow> nat list \<Rightarrow> nat set \<Rightarrow> bool" where
  "group_inv regions g0 u0 g u =
     (g \<noteq> [] \<and> distinct g \<and> set g \<subseteq> {..<length regions}
      \<and> (\<forall>a \<in> set g. (hd g, a) \<in> (overlapEdges regions)\<^sup>*)
      \<and> hd g = hd g0 \<and> set g0 \<subseteq> set g \<and> u = u0 \<union> set g \<and> (set g - set g0) \<inter> u0 = {})"

text \<open>
  What holds of the finished groups: they are disjoint and cover \<open>used\<close>, each is
  connected from its seed, and no box of a group overlaps a box outside it.
\<close>

definition groups_inv :: "region list \<Rightarrow> nat list list \<Rightarrow> nat set \<Rightarrow> bool" where
  "groups_inv regions gs used =
     (used = \<Union> (set ` set gs) \<and> used \<subseteq> {..<length regions} \<and> distinct (concat gs)
      \<and> (\<forall>g \<in> set gs. g \<noteq> [] \<and> (\<forall>a \<in> set g. (hd g, a) \<in> (overlapEdges regions)\<^sup>*))
      \<and> (\<forall>g \<in> set gs. \<forall>a \<in> set g. \<forall>b < length regions.
            b \<notin> set g \<longrightarrow> \<not> overlaps regions a b))"

text \<open>
  A region all of whose numbers are finite, and the minimal rectangle enclosing the
  boxes of a set of indices together with their maximal score.
\<close>

fun is_fin :: "jsnum \<Rightarrow> bool" where
  "is_fin (Fin a) = True"
| "is_fin _ = False"

fun num :: "jsnum \<Rightarrow> real" where
  "num (Fin a) = a"
| "num _ = 0"

definition finite_region :: "region \<Rightarrow> bool" where
  "finite_region r =
     (case box r of (x1, y1, x2, y2) \<Rightarrow>
        is_fin x1 \<and> is_fin y1 \<and> is_fin x2 \<and> is_fin y2 \<and> is_fin (score r))"

definition box_left :: "region \<Rightarrow> real" where
  "box_left r = (case box r of (x1, y1, x2, y2) \<Rightarrow> num x1)"

definition box_top :: "region \<Rightarrow> real" where
  "box_top r = (case box r of (x1, y1, x2, y2) \<Rightarrow> num y1)"

definition box_right :: "region \<Rightarrow> real" where
  "box_right r = (case box r of (x1, y1, x2, y2) \<Rightarrow> num x2)"

definition box_bottom :: "region \<Rightarrow> real" where
  "box_bottom r = (case box r of (x1, y1, x2, y2) \<Rightarrow> num y2)"

definition enclose :: "region list \<Rightarrow> nat set \<Rightarrow> region" where
  "enclose regions S =
     \<lparr> box = (Fin (Min ((\<lambda>i. box_left (regions ! i)) ` S)), Fin (Min ((\<lambda>i. box_top (regions ! i)) ` S)),
              Fin (Max ((\<lambda>i. box_right (regions ! i)) ` S)),
              Fin (Max ((\<lambda>i. box_bottom (regions ! i)) ` S))),
       score = Fin (Max ((\<lambda>i. num (score (regions ! i))) ` S)) \<rparr>"

text \<open>
  Three boxes: the first two overlap in a corner, and the third lies inside their union
  box without touching either.
\<close>

definition nested_regions :: "region list" where
  "nested_regions =
     [\<lparr> box = (Fin 0, Fin 0, Fin 10, Fin 1), score = Fin 0.9 \<rparr>,
      \<lparr> box = (Fin 9, Fin 0, Fin 10, Fin 10), score = Fin 0.8 \<rparr>,
      \<lparr> box = (Fin 2, Fin 5, Fin 4, Fin 7), score = Fin 0.7 \<rparr>]"

text \<open>The chain A, B, C: A overlaps B, B overlaps C, A and C are disjoint.\<close>

definition chain_regions :: "region list" where
  "chain_regions =
     [\<lparr> box = (Fin 0, Fin 0, Fin 10, Fin 10), score = Fin 0.5 \<rparr>,
      \<lparr> box = (Fin 8, Fin 0, Fin 20, Fin 10), score = Fin 0.9 \<rparr>,
      \<lparr> box = (Fin 18, Fin 0, Fin 30, Fin 10), score = Fin 0.4 \<rparr>]"

section \<open>Detection: from the engine's output to regions\<close>

text \<open>
  The thresholds as the source writes them. A decimal literal denotes the binary64 value
  nearest to it, so the comparisons below use \<open>binary64\<close> of these.
\<close>

definition DETECT_CONFIDENCE :: real where "DETECT_CONFIDENCE = 0.3"
definition RECOGNIZE_CONFIDENCE :: real where "RECOGNIZE_CONFIDENCE = 0.1"
definition X_OVERLAP :: real where "X_OVERLAP = 0.3"
definition INPUT_HEIGHT :: real where "INPUT_HEIGHT = 32"

text \<open>
  The exceptions of the reducers: the \<open>TypeError\<close> the language raises on reading a
  property of \<open>undefined\<close> or \<open>null\<close>, and the error thrown when the session is missing.
\<close>

datatype error = TypeError | NotInitialized

text \<open>
  The object \<open>session.run\<close> resolves to, as far as the reducer looks at it. \<open>None\<close> is a
  missing object (\<open>undefined\<close> or \<open>null\<close>). Otherwise it is the list of its own properties
  in the order \<open>Object.keys\<close> gives them; a property holds \<open>undefined\<close> or \<open>null\<close>
  (\<open>NoValue\<close>), or an object whose \<open>data\<close> is an array of numbers or is missing.
\<close>

datatype engine_output = NoValue | Output "jsnum list option"

type_synonym results = "(string \<times> engine_output) list"

definition get_prop :: "results \<Rightarrow> string \<Rightarrow> engine_output" where
  "get_prop r k = (case map_of r k of None \<Rightarrow> NoValue | Some v \<Rightarrow> v)"

text \<open>\<open>results[keys[i]]\<close>: past the end \<open>keys[i]\<close> is \<open>undefined\<close>, which names the property "undefined".\<close>

definition prop_at_key :: "results \<Rightarrow> nat \<Rightarrow> engine_output" where
  "prop_at_key r i =
     (let keys = map fst r in if i < length keys then get_prop r (keys ! i) else get_prop r ''undefined'')"

definition data_of :: "engine_output \<Rightarrow> error + jsnum list option" where
  "data_of v = (case v of NoValue \<Rightarrow> Inl TypeError | Output d \<Rightarrow> Inr d)"

text \<open>Reading an array of numbers: \<open>undefined\<close> out of range, NaN once used as a number.\<close>

definition at_num :: "jsnum list \<Rightarrow> nat \<Rightarrow> jsnum" where
  "at_num xs i = (if i < length xs then xs ! i else NaN)"

text \<open>The extraction of \<open>boxes\<close> and \<open>scores\<close>, by name or from the first two outputs.\<close>

definition extractDetection ::
  "results option \<Rightarrow> error + (jsnum list option \<times> jsnum list option)" where
  "extractDetection results =
     (case results of
        None \<Rightarrow> Inl TypeError
      | Some r \<Rightarrow>
          if get_prop r ''boxes'' \<noteq> NoValue \<and> get_prop r ''scores'' \<noteq> NoValue
          then (case data_of (get_prop r ''boxes'') of
                  Inl e \<Rightarrow> Inl e
                | Inr boxes \<Rightarrow>
                    (case data_of (get_prop r ''scores'') of
                       Inl e \<Rightarrow> Inl e
                     | Inr scores \<Rightarrow> Inr (boxes, scores)))
          else (case data_of (prop_at_key r 0) of
                  Inl e \<Rightarrow> Inl e
                | Inr boxes \<Rightarrow>
                    (case data_of (prop_at_key r 1) of
                       Inl e \<Rightarrow> Inl e
                     | Inr scores \<Rightarrow> Inr (boxes, scores))))"

text \<open>
  The filtering loop over the indices of \<open>scores\<close>. Indexing a missing \<open>boxes\<close> raises
  \<open>TypeError\<close>; indexing past its end gives \<open>undefined\<close>. The division by the scale
  rounds; the floor, the minimum and the maximum are exact.
\<close>

fun detectLoop ::
  "jsnum list option \<Rightarrow> jsnum list \<Rightarrow> jsnum \<Rightarrow> jsnum \<Rightarrow> jsnum \<Rightarrow> nat list \<Rightarrow> region list
   \<Rightarrow> error + region list" where
  "detectLoop boxes scores scale origWidth origHeight [] detectedRegions = Inr detectedRegions"
| "detectLoop boxes scores scale origWidth origHeight (i # rest) detectedRegions =
     (if js_lt (at_num scores i) (binary64 DETECT_CONFIDENCE)
      then detectLoop boxes scores scale origWidth origHeight rest detectedRegions
      else case boxes of
        None \<Rightarrow> Inl TypeError
      | Some bs \<Rightarrow>
          (let b0 = js_floor (fl_div (at_num bs (i * 4)) scale);
               b1 = js_floor (fl_div (at_num bs (i * 4 + 1)) scale);
               b2 = js_floor (fl_div (at_num bs (i * 4 + 2)) scale);
               b3 = js_floor (fl_div (at_num bs (i * 4 + 3)) scale);
               clamped = (js_max (Fin 0) (js_min b0 origWidth),
                          js_max (Fin 0) (js_min b1 origHeight),
                          js_max (Fin 0) (js_min b2 origWidth),
                          js_max (Fin 0) (js_min b3 origHeight))
           in detectLoop boxes scores scale origWidth origHeight rest
                (detectedRegions @ [\<lparr> box = clamped, score = at_num scores i \<rparr>])))"

text \<open>
  \<open>Array.prototype.sort\<close> is the engine's. The language fixes its result only for a
  consistent comparator: then it is the stable sorted arrangement, which the insertion
  sort \<open>js_sort\<close> computes (\<open>x\<close> goes after \<open>y\<close> exactly when the comparator is positive on
  them). For any other comparator the result is some rearrangement of the array, chosen
  by the engine. The reducers therefore take the sort as a parameter \<open>srt\<close>, of which
  \<open>sort_spec\<close> says what the language guarantees. A comparator is consistent on a list
  when it never returns NaN there and its sign is that of the difference of a key.
\<close>

fun js_insort :: "('a \<Rightarrow> 'a \<Rightarrow> jsnum) \<Rightarrow> 'a \<Rightarrow> 'a list \<Rightarrow> 'a list" where
  "js_insort cmp x [] = [x]"
| "js_insort cmp x (y # ys) =
     (if js_gt (cmp x y) (Fin 0) then y # js_insort cmp x ys else x # y # ys)"

definition js_sort :: "('a \<Rightarrow> 'a \<Rightarrow> jsnum) \<Rightarrow> 'a list \<Rightarrow> 'a list" where
  "js_sort cmp xs = foldr (js_insort cmp) xs []"

definition consistent_on :: "('a \<Rightarrow> 'a \<Rightarrow> jsnum) \<Rightarrow> 'a list \<Rightarrow> bool" where
  "consistent_on cmp xs =
     (\<exists>key :: 'a \<Rightarrow> real. \<forall>a \<in> set xs. \<forall>b \<in> set xs.
        cmp a b \<noteq> NaN
        \<and> js_gt (cmp a b) (Fin 0) = (key b < key a)
        \<and> js_lt (cmp a b) (Fin 0) = (key a < key b))"

definition sort_spec :: "(('a \<Rightarrow> 'a \<Rightarrow> jsnum) \<Rightarrow> 'a list \<Rightarrow> 'a list) \<Rightarrow> bool" where
  "sort_spec srt =
     ((\<forall>cmp xs. mset (srt cmp xs) = mset xs)
      \<and> (\<forall>cmp xs. consistent_on cmp xs \<longrightarrow> srt cmp xs = js_sort cmp xs))"

definition box_y1 :: "region \<Rightarrow> jsnum" where
  "box_y1 r = (case box r of (x1, y1, x2, y2) \<Rightarrow> y1)"

text \<open>
  \<open>detectTextRegions\<close> from the point where the engine has answered: the engine's sort,
  whether the session exists, the scale and the original size from the preprocessing,
  and the raw output.
\<close>

definition detectTextRegions ::
  "((region \<Rightarrow> region \<Rightarrow> jsnum) \<Rightarrow> region list \<Rightarrow> region list)
   \<Rightarrow> bool \<Rightarrow> jsnum \<Rightarrow> jsnum \<Rightarrow> jsnum \<Rightarrow> results option \<Rightarrow> error + region list" where
  "detectTextRegions srt detectSession scale origWidth origHeight results =
     (if \<not> detectSession then Inl NotInitialized
      else case extractDetection results of
        Inl e \<Rightarrow> Inl e
      | Inr (boxes, scores) \<Rightarrow>
          (case scores of
             None \<Rightarrow> Inl TypeError
           | Some ss \<Rightarrow>
               (case detectLoop boxes ss scale origWidth origHeight [0 ..< length ss] [] of
                  Inl e \<Rightarrow> Inl e
                | Inr detectedRegions \<Rightarrow>
                    Inr (srt (\<lambda>a b. fl_sub (box_y1 a) (box_y1 b))
                           (mergeOverlappingBoxes detectedRegions)))))"

section \<open>Recognition: decoding and deduplication\<close>

text \<open>
  A character candidate. \<open>String.fromCharCode\<close> gives one UTF-16 code unit: the label
  truncated to an integer and reduced modulo \<open>2^16\<close>, and 0 for NaN and the infinities.
\<close>

record candidate =
  char :: "16 word"
  bbox :: box
  conf :: jsnum
  xInterval :: "jsnum \<times> jsnum"

definition fromCharCode :: "jsnum \<Rightarrow> 16 word" where
  "fromCharCode n =
     (case n of Fin a \<Rightarrow> word_of_int (if 0 \<le> a then \<lfloor>a\<rfloor> else \<lceil>a\<rceil>) | _ \<Rightarrow> 0)"

text \<open>
  The first loop of \<open>decodeMeikiOCROutput\<close>. Reading \<open>scores[i]\<close> of a missing array and
  slicing a missing \<open>boxes\<close> raise \<open>TypeError\<close>; a slice that is too short leaves the
  destructured coordinates \<open>undefined\<close>. Each division and each multiplication of the
  remapping rounds.
\<close>

fun candidateLoop ::
  "jsnum list \<Rightarrow> jsnum list option \<Rightarrow> jsnum list option \<Rightarrow> jsnum \<Rightarrow> jsnum \<Rightarrow> jsnum
   \<Rightarrow> nat list \<Rightarrow> candidate list \<Rightarrow> error + candidate list" where
  "candidateLoop labels boxes scores effectiveWidth origWidth origHeight [] candidates =
     Inr candidates"
| "candidateLoop labels boxes scores effectiveWidth origWidth origHeight (i # rest) candidates =
     (case scores of
        None \<Rightarrow> Inl TypeError
      | Some ss \<Rightarrow>
          (let score = at_num ss i in
           if js_lt score (binary64 RECOGNIZE_CONFIDENCE)
           then candidateLoop labels boxes scores effectiveWidth origWidth origHeight rest
                  candidates
           else case boxes of
             None \<Rightarrow> Inl TypeError
           | Some bs \<Rightarrow>
               (let label = labels ! i;
                    rx1 = js_min (at_num bs (i * 4)) effectiveWidth;
                    ry1 = at_num bs (i * 4 + 1);
                    rx2 = js_min (at_num bs (i * 4 + 2)) effectiveWidth;
                    ry2 = at_num bs (i * 4 + 3);
                    cx1 = fl_mul (fl_div rx1 effectiveWidth) origWidth;
                    cx2 = fl_mul (fl_div rx2 effectiveWidth) origWidth;
                    cy1 = fl_mul (fl_div ry1 (Fin INPUT_HEIGHT)) origHeight;
                    cy2 = fl_mul (fl_div ry2 (Fin INPUT_HEIGHT)) origHeight
                in candidateLoop labels boxes scores effectiveWidth origWidth origHeight rest
                     (candidates @
                        [\<lparr> char = fromCharCode label,
                           bbox = (js_floor cx1, js_floor cy1, js_floor cx2, js_floor cy2),
                           conf = score, xInterval = (cx1, cx2) \<rparr>]))))"

text \<open>
  The quantities the deduplication compares for a candidate and an accepted one, each
  subtraction rounded, and its test \<open>overlap > minWidth * THRESHOLDS.X_OVERLAP\<close> with the
  product rounded.
\<close>

definition xOverlap :: "candidate \<Rightarrow> candidate \<Rightarrow> jsnum" where
  "xOverlap candidate other =
     (case xInterval candidate of (ax1, ax2) \<Rightarrow>
      case xInterval other of (bx1, bx2) \<Rightarrow>
        fl_sub (js_min ax2 bx2) (js_max ax1 bx1))"

definition minWidth :: "candidate \<Rightarrow> candidate \<Rightarrow> jsnum" where
  "minWidth candidate other =
     (case xInterval candidate of (ax1, ax2) \<Rightarrow>
      case xInterval other of (bx1, bx2) \<Rightarrow>
        js_min (fl_sub ax2 ax1) (fl_sub bx2 bx1))"

definition exceeds :: "candidate \<Rightarrow> candidate \<Rightarrow> bool" where
  "exceeds candidate other =
     js_gt (xOverlap candidate other) (fl_mul (minWidth candidate other) (binary64 X_OVERLAP))"

definition dedupStep :: "candidate \<Rightarrow> candidate list \<Rightarrow> candidate list" where
  "dedupStep candidate accepted =
     (let overlaps = list_ex (\<lambda>other. exceeds candidate other) accepted
      in if \<not> overlaps then accepted @ [candidate] else accepted)"

text \<open>
  \<open>decodeMeikiOCROutput\<close>, given the engine's sort: the text and the accepted candidates.
  A missing \<open>labels\<close> raises \<open>TypeError\<close> at \<open>labels.length\<close>.
\<close>

definition decodeMeikiOCROutput ::
  "((candidate \<Rightarrow> candidate \<Rightarrow> jsnum) \<Rightarrow> candidate list \<Rightarrow> candidate list)
   \<Rightarrow> jsnum list option \<Rightarrow> jsnum list option \<Rightarrow> jsnum list option \<Rightarrow> jsnum \<Rightarrow> jsnum \<Rightarrow> jsnum
   \<Rightarrow> error + (16 word list \<times> candidate list)" where
  "decodeMeikiOCROutput srt labels boxes scores effectiveWidth origWidth origHeight =
     (case labels of
        None \<Rightarrow> Inl TypeError
      | Some ls \<Rightarrow>
          (case candidateLoop ls boxes scores effectiveWidth origWidth origHeight
                  [0 ..< length ls] [] of
             Inl e \<Rightarrow> Inl e
           | Inr candidates \<Rightarrow>
               (let sorted = srt (\<lambda>a b. fl_sub (conf b) (conf a)) candidates;
                    accepted = fold dedupStep sorted [];
                    accepted = srt (\<lambda>a b. fl_sub (fst (xInterval a)) (fst (xInterval b)))
                                 accepted
                in Inr (map char accepted, accepted))))"

text \<open>
  The relations of the dedup claim. Read in exact arithmetic on the intervals returned:
  the length of the overlap of two intervals and the width of the narrower one. And the
  order of the result: an interval starts no later than another.
\<close>

definition overlap_length :: "candidate \<Rightarrow> candidate \<Rightarrow> real" where
  "overlap_length a b =
     min (num (snd (xInterval a))) (num (snd (xInterval b)))
     - max (num (fst (xInterval a))) (num (fst (xInterval b)))"

definition narrower_width :: "candidate \<Rightarrow> candidate \<Rightarrow> real" where
  "narrower_width a b =
     min (num (snd (xInterval a)) - num (fst (xInterval a)))
         (num (snd (xInterval b)) - num (fst (xInterval b)))"

definition starts_before :: "candidate \<Rightarrow> candidate \<Rightarrow> bool" where
  "starts_before a b = js_le (fst (xInterval a)) (fst (xInterval b))"

text \<open>
  Three characters on a crop of 1 by 1 recognized at an effective width of 1, so that the
  remapping changes nothing: the intervals [-1, 0.2625], [0, 0.875] and again [0, 0.875],
  with the confidences 1, 0.5 and 0.25. Here 0.2625 stands for the binary64 value the
  literal denotes, \<open>4728779608739021 / 2^54\<close>; the other numbers are dyadic.
\<close>

definition sample_labels :: "jsnum list" where
  "sample_labels = [Fin 12354, Fin 12356, Fin 12358]"

definition sample_boxes :: "jsnum list" where
  "sample_boxes = [Fin (- 1), Fin 0, Fin (4728779608739021 / 18014398509481984), Fin 0,
                   Fin 0, Fin 0, Fin (7 / 8), Fin 0,
                   Fin 0, Fin 0, Fin (7 / 8), Fin 0]"

definition sample_scores :: "jsnum list" where
  "sample_scores = [Fin 1, Fin (1 / 2), Fin (1 / 4)]"

definition sample_kept :: "candidate list" where
  "sample_kept =
     [\<lparr> char = 12354, bbox = (Fin (- 1), Fin 0, Fin 0, Fin 0), conf = Fin 1,
        xInterval = (Fin (- 1), Fin (4728779608739021 / 18014398509481984)) \<rparr>,
      \<lparr> char = 12356, bbox = (Fin 0, Fin 0, Fin 0, Fin 0), conf = Fin (1 / 2),
        xInterval = (Fin 0, Fin (7 / 8)) \<rparr>]"

definition sample_dropped :: candidate where
  "sample_dropped =
     \<lparr> char = 12358, bbox = (Fin 0, Fin 0, Fin 0, Fin 0), conf = Fin (1 / 4),
       xInterval = (Fin 0, Fin (7 / 8)) \<rparr>"

section \<open>The scripted runs\<close>

lemma default_config_simps:
  "changeThreshold default_config = 0.015"
  "lowChangeThreshold default_config = 0.01"
  "stabilityFrames default_config = 3"
  "pixelDiffThreshold default_config = 20"
  by (simp_all add: default_config_def mk_config_def no_options_def or_default_def)

text \<open>
  C4. From Idle with stable-count 0 and the default thresholds, the fractions
  0.02, 0.005, 0.02, 0.005, 0.005, 0.005 fire the trigger on the sixth sample and on no
  other, and leave the machine in Idle with stable-count 0. After the fifth sample the
  machine waits with a count of 2 only: the spike at the third sample has reset it.
\<close>

theorem C4_interrupted_run_fires_once_on_sixth:
  "feed default_config initial_machine
        [Fin 0.02, Fin 0.005, Fin 0.02, Fin 0.005, Fin 0.005, Fin 0.005]
     = (\<lparr> state = Idle, stableFrameCount = 0, triggeredCount = 1 \<rparr>,
        [False, False, False, False, False, True])
   \<and> fst (feed default_config initial_machine
        [Fin 0.02, Fin 0.005, Fin 0.02, Fin 0.005, Fin 0.005])
     = \<lparr> state = WaitingForStability, stableFrameCount = 2, triggeredCount = 0 \<rparr>"
  by (simp add: processStateChange_def default_config_simps initial_machine_def
      js_gt_def)

section \<open>The counter invariant\<close>









section \<open>The line filter: normalization\<close>

lemmas chars = open_quote_def close_quote_def ascii_open_paren_def ascii_close_paren_def
  wide_open_paren_def wide_close_paren_def horizontal_bar_def long_vowel_mark_def
  is_ascii_def is_js_whitespace_def

lemma replaceAll_single:
  "replaceAll [a] [b] s = map (\<lambda>c. if c = a then b else c) s"
  by (induction s) auto

lemma replaceAll_pair_id:
  "\<not> adjacent_pair c s \<Longrightarrow> replaceAll [c, c] [c] s = s"
proof (induction s)
  case Nil
  then show ?case by simp
next
  case (Cons x xs)
  then show ?case by (cases xs) auto
qed

lemma mem_replaceAll_single:
  "c \<in> set (replaceAll [a] [b] s) \<longleftrightarrow> (c \<in> set s \<and> c \<noteq> a) \<or> (c = b \<and> a \<in> set s)"
  by (auto simp: replaceAll_single)

lemma mem_balance:
  "c \<in> set (balance opening closing s) \<longleftrightarrow>
     c \<in> set s \<or> (c = closing \<and> opening \<in> set s \<and> closing \<notin> set s)
       \<or> (c = opening \<and> opening \<notin> set s \<and> closing \<in> set s)"
  by (auto simp: balance_def Let_def)

lemma mem_dropWhile: "\<not> p c \<Longrightarrow> c \<in> set (dropWhile p s) \<longleftrightarrow> c \<in> set s"
  by (induction s) auto

lemma mem_trim: "\<not> is_js_whitespace c \<Longrightarrow> c \<in> set (trim s) \<longleftrightarrow> c \<in> set s"
  by (simp add: trim_def mem_dropWhile)

lemma set_trim_subset: "c \<in> set (trim s) \<Longrightarrow> c \<in> set s"
  by (auto simp: trim_def dest!: set_dropWhileD)

lemma edges_id:
  assumes "s \<noteq> []" "\<not> p (hd s)" "\<not> p (last s)"
  shows "rev (dropWhile p (rev (dropWhile p s))) = s"
proof -
  have a: "dropWhile p s = s" using assms by (cases s) auto
  have "rev s \<noteq> []" "\<not> p (hd (rev s))" using assms by (auto simp: hd_rev)
  then have "dropWhile p (rev s) = rev s" by (cases "rev s") auto
  with a show ?thesis by simp
qed

lemma edges_result:
  assumes "rev (dropWhile p (rev (dropWhile p s))) = t" "t \<noteq> []"
  shows "\<not> p (hd t) \<and> \<not> p (last t)"
proof -
  let ?u = "dropWhile p s"
  have u: "?u \<noteq> []"
  proof
    assume a: "?u = []"
    have "t = []" unfolding assms(1)[symmetric] a by simp
    with assms(2) show False by simp
  qed
  have hu: "\<not> p (hd ?u)" using u by (rule hd_dropWhile)
  have v: "dropWhile p (rev ?u) \<noteq> []" using assms by auto
  have hv: "\<not> p (hd (dropWhile p (rev ?u)))" using v by (rule hd_dropWhile)
  have l: "last t = hd (dropWhile p (rev ?u))" using assms v by (auto simp: last_rev)
  obtain ys zs where yz: "rev ?u = ys @ zs" "dropWhile p (rev ?u) = zs"
    by (metis takeWhile_dropWhile_id)
  have "?u = rev zs @ rev ys" using yz(1) by (metis rev_append rev_rev_ident)
  moreover have "t = rev zs" using assms yz by simp
  ultimately have "hd t = hd ?u" using assms(2) by (cases "rev zs") auto
  with hu hv l show ?thesis by simp
qed

lemma special_chars:
  "\<not> is_js_whitespace open_quote" "\<not> is_js_whitespace close_quote"
  "\<not> is_js_whitespace wide_open_paren" "\<not> is_js_whitespace wide_close_paren"
  "\<not> is_ascii open_quote" "\<not> is_ascii close_quote"
  "\<not> is_ascii wide_open_paren" "\<not> is_ascii wide_close_paren"
  "open_quote \<noteq> close_quote" "close_quote \<noteq> open_quote"
  "wide_open_paren \<noteq> wide_close_paren" "wide_close_paren \<noteq> wide_open_paren"
  "open_quote \<noteq> wide_open_paren" "open_quote \<noteq> wide_close_paren"
  "close_quote \<noteq> wide_open_paren" "close_quote \<noteq> wide_close_paren"
  "wide_open_paren \<noteq> open_quote" "wide_close_paren \<noteq> open_quote"
  "wide_open_paren \<noteq> close_quote" "wide_close_paren \<noteq> close_quote"
  "horizontal_bar \<noteq> long_vowel_mark" "long_vowel_mark \<noteq> horizontal_bar"
  "horizontal_bar \<noteq> open_quote" "horizontal_bar \<noteq> close_quote"
  "horizontal_bar \<noteq> wide_open_paren" "horizontal_bar \<noteq> wide_close_paren"
  "open_quote \<noteq> horizontal_bar" "close_quote \<noteq> horizontal_bar"
  "wide_open_paren \<noteq> horizontal_bar" "wide_close_paren \<noteq> horizontal_bar"
  "long_vowel_mark \<noteq> open_quote" "long_vowel_mark \<noteq> close_quote"
  "long_vowel_mark \<noteq> wide_open_paren" "long_vowel_mark \<noteq> wide_close_paren"
  "open_quote \<noteq> long_vowel_mark" "close_quote \<noteq> long_vowel_mark"
  "wide_open_paren \<noteq> long_vowel_mark" "wide_close_paren \<noteq> long_vowel_mark"
  "ascii_open_paren \<noteq> ascii_close_paren" "ascii_close_paren \<noteq> ascii_open_paren"
  "ascii_open_paren \<noteq> open_quote" "ascii_open_paren \<noteq> close_quote"
  "ascii_open_paren \<noteq> wide_open_paren" "ascii_open_paren \<noteq> wide_close_paren"
  "ascii_open_paren \<noteq> long_vowel_mark" "ascii_open_paren \<noteq> horizontal_bar"
  "ascii_close_paren \<noteq> open_quote" "ascii_close_paren \<noteq> close_quote"
  "ascii_close_paren \<noteq> wide_open_paren" "ascii_close_paren \<noteq> wide_close_paren"
  "ascii_close_paren \<noteq> long_vowel_mark" "ascii_close_paren \<noteq> horizontal_bar"
  by (simp_all add: chars)

text \<open>What every normalized line looks like.\<close>

lemma normalizeLine_shape:
  assumes "normalizeLine x = Some t"
  shows "t \<noteq> []" "trim t = t"
    "ascii_open_paren \<notin> set t" "ascii_close_paren \<notin> set t" "horizontal_bar \<notin> set t"
    "(open_quote \<in> set t) = (close_quote \<in> set t)"
    "(wide_open_paren \<in> set t) = (wide_close_paren \<in> set t)"
proof -
  define s3 where "s3 = replaceAll [open_quote, open_quote] [open_quote]
     (replaceAll [close_quote, close_quote] [close_quote] (strip_ascii_edges x))"
  define s5 where "s5 = replaceAll [ascii_close_paren] [wide_close_paren]
     (replaceAll [ascii_open_paren] [wide_open_paren] s3)"
  define s6 where "s6 = balance open_quote close_quote s5"
  define s7 where "s7 = balance wide_open_paren wide_close_paren s6"
  define s8 where "s8 = replaceAll [horizontal_bar] [long_vowel_mark] s7"
  have t: "t = trim s8" and ne: "t \<noteq> []"
    using assms by (auto simp: normalizeLine_def Let_def s3_def s5_def s6_def s7_def s8_def
        split: if_splits)
  show "t \<noteq> []" by (rule ne)
  have e: "\<not> is_js_whitespace (hd t) \<and> \<not> is_js_whitespace (last t)"
    using edges_result[of is_js_whitespace s8 t] t ne by (simp add: trim_def)
  show "trim t = t" unfolding trim_def using edges_id[OF ne] e by simp
  have p5: "ascii_open_paren \<notin> set s5" "ascii_close_paren \<notin> set s5"
    by (auto simp: s5_def mem_replaceAll_single special_chars)
  have p8: "ascii_open_paren \<notin> set s8" "ascii_close_paren \<notin> set s8" "horizontal_bar \<notin> set s8"
    using p5 by (auto simp: s8_def s7_def s6_def mem_replaceAll_single mem_balance special_chars)
  show "ascii_open_paren \<notin> set t" "ascii_close_paren \<notin> set t" "horizontal_bar \<notin> set t"
    using p8 set_trim_subset t by blast+
  have q6: "(open_quote \<in> set s6) = (close_quote \<in> set s6)"
    by (auto simp: s6_def mem_balance special_chars)
  have q8: "(open_quote \<in> set s8) = (close_quote \<in> set s8)"
    using q6 by (simp add: s8_def s7_def mem_replaceAll_single mem_balance special_chars)
  show "(open_quote \<in> set t) = (close_quote \<in> set t)"
    using q8 by (simp add: t mem_trim special_chars)
  have r7: "(wide_open_paren \<in> set s7) = (wide_close_paren \<in> set s7)"
    by (auto simp: s7_def mem_balance special_chars)
  have r8: "(wide_open_paren \<in> set s8) = (wide_close_paren \<in> set s8)"
    using r7 by (simp add: s8_def mem_replaceAll_single special_chars)
  show "(wide_open_paren \<in> set t) = (wide_close_paren \<in> set t)"
    using r8 by (simp add: t mem_trim special_chars)
qed

lemma replaceAll_single_absent: "a \<notin> set s \<Longrightarrow> replaceAll [a] [b] s = s"
  by (induction s) auto

lemma balance_id: "(opening \<in> set s) = (closing \<in> set s) \<Longrightarrow> balance opening closing s = s"
  by (auto simp: balance_def Let_def)

text \<open>
  C7, as stated, fails. \<open>replaceAll\<close> makes one pass, so three closing brackets in a row
  become two, which the next normalization shortens again; and \<open>trim\<close> runs after the
  ASCII edges were stripped, so removing an ideographic space can expose an ASCII
  character that the next normalization strips.
\<close>

theorem C7_normalization_not_idempotent_counterexample:
  "normalizeLine [close_quote, close_quote, close_quote]
      = Some [open_quote, close_quote, close_quote]
   \<and> normalizeLine [open_quote, close_quote, close_quote]
      \<noteq> Some [open_quote, close_quote, close_quote]
   \<and> normalizeLine [0x3042, 0x41, 0x3000] = Some [0x3042, 0x41]
   \<and> normalizeLine [0x3042, 0x41] \<noteq> Some [0x3042, 0x41]"
  by (simp add: normalizeLine_def strip_ascii_edges_def trim_def balance_def chars)

text \<open>
  C7, amended. If normalizing an input yields a non-empty line \<open>t\<close> that neither begins
  nor ends with an ASCII character and holds no two adjacent closing brackets and no two
  adjacent opening brackets, then normalizing \<open>t\<close> again yields \<open>t\<close> unchanged.
\<close>

theorem C7_normalization_idempotent:
  assumes "normalizeLine x = Some t"
    and "\<not> is_ascii (hd t)" and "\<not> is_ascii (last t)"
    and "\<not> adjacent_pair close_quote t" and "\<not> adjacent_pair open_quote t"
  shows "normalizeLine t = Some t"
proof -
  note sh = normalizeLine_shape[OF assms(1)]
  have 1: "strip_ascii_edges t = t"
    unfolding strip_ascii_edges_def using edges_id[OF sh(1) assms(2,3)] .
  show ?thesis
    unfolding normalizeLine_def Let_def
    by (simp add: 1 replaceAll_pair_id assms(4,5) replaceAll_single_absent sh balance_id)
qed

theorem C7_normalization_idempotent_witness:
  "normalizeLine [0x7684, 0x300C, 0x4ECA, 0x65E5, 0x306F]
      = Some [0x7684, 0x300C, 0x4ECA, 0x65E5, 0x306F, 0x300D]
   \<and> \<not> is_ascii (hd [0x7684, 0x300C, 0x4ECA, 0x65E5, 0x306F, 0x300D])
   \<and> \<not> is_ascii (last [0x7684, 0x300C, 0x4ECA, 0x65E5, 0x306F, 0x300D])
   \<and> \<not> adjacent_pair close_quote [0x7684, 0x300C, 0x4ECA, 0x65E5, 0x306F, 0x300D]
   \<and> \<not> adjacent_pair open_quote [0x7684, 0x300C, 0x4ECA, 0x65E5, 0x306F, 0x300D]
   \<and> normalizeLine [0x7684, 0x300C, 0x4ECA, 0x65E5, 0x306F, 0x300D]
      = Some [0x7684, 0x300C, 0x4ECA, 0x65E5, 0x306F, 0x300D]"
proof -
  have n: "normalizeLine [0x7684, 0x300C, 0x4ECA, 0x65E5, 0x306F]
      = Some [0x7684, 0x300C, 0x4ECA, 0x65E5, 0x306F, 0x300D]"
    by (simp add: normalizeLine_def strip_ascii_edges_def trim_def balance_def chars)
  have e: "\<not> is_ascii (hd [0x7684, 0x300C, 0x4ECA, 0x65E5, 0x306F, 0x300D])"
    "\<not> is_ascii (last [0x7684, 0x300C, 0x4ECA, 0x65E5, 0x306F, 0x300D])"
    "\<not> adjacent_pair close_quote [0x7684, 0x300C, 0x4ECA, 0x65E5, 0x306F, 0x300D]"
    "\<not> adjacent_pair open_quote [0x7684, 0x300C, 0x4ECA, 0x65E5, 0x306F, 0x300D]"
    by (simp_all add: chars)
  from C7_normalization_idempotent [OF n e] n e show ?thesis by simp
qed

section \<open>The line filter: repeat suppression\<close>

lemma array_at_length: "array_at xs (int (length xs)) = None"
  by (simp add: array_at_def)

lemma filterOCRLine_never_suppresses:
  "normalizeLine text = Some t \<Longrightarrow> fst (filterOCRLine text buf) = Some t"
  by (simp add: filterOCRLine_def array_at_length Let_def)

text \<open>
  C1. The source compares the new line with \<open>recentLines.at(recentLines.length)\<close>, which
  is one past the last element and so always \<open>undefined\<close>; the suppression never happens.
  Starting from the empty buffer, the line U+3042 is emitted, and the immediately
  following call with the same input emits it a second time: two output events.
\<close>

theorem C1_repeat_is_emitted_twice:
  "filterOCRLine [0x3042] [] = (Some [0x3042], [[0x3042]])
   \<and> filterOCRLine [0x3042] [[0x3042]] = (Some [0x3042], [[0x3042], [0x3042]])"
  by (simp add: filterOCRLine_def array_at_def MAX_RECENT_LINES_def normalizeLine_def
      strip_ascii_edges_def trim_def balance_def chars)

section \<open>The differ\<close>

lemma totalDiff_same: "totalDiff d d i = NaN \<or> totalDiff d d i = Fin 0"
  by (simp add: totalDiff_def elem_def js_sub_def)

lemma totalDiff_sym: "totalDiff d1 d2 i = totalDiff d2 d1 i"
proof -
  have "js_abs (js_sub a b) = js_abs (js_sub b a)" for a b
    by (cases a; cases b) (simp_all add: js_sub_def)
  then show ?thesis by (simp add: totalDiff_def)
qed

lemma diffLoop_same_aux: "0 \<le> thr \<Longrightarrow> d2 = d1 \<Longrightarrow> diffLoop thr d1 d2 i c = c"
proof (induction thr d1 d2 i c rule: diffLoop.induct)
  case (1 thr data1 data2 i diffCount)
  have ng: "\<not> js_gt (totalDiff data1 data2 i) (Fin thr)"
    using totalDiff_same[of data1 i] "1.prems" by (auto simp: js_gt_def)
  show ?case
    using "1.IH" "1.prems" ng by (subst diffLoop.simps) simp
qed

lemma diffLoop_same: "0 \<le> thr \<Longrightarrow> diffLoop thr d d i c = c"
  by (rule diffLoop_same_aux) simp_all

lemma diffLoop_sym:
  "length d1 = length d2 \<Longrightarrow> diffLoop thr d1 d2 i c = diffLoop thr d2 d1 i c"
proof (induction thr d1 d2 i c rule: diffLoop.induct)
  case (1 thr data1 data2 i diffCount)
  show ?case
    using "1.IH" "1.prems"
    by (subst diffLoop.simps, subst (2) diffLoop.simps) (simp add: totalDiff_sym)
qed

lemma totalDiff_in_range:
  assumes "4 * k + 3 < length d1" "length d2 = length d1"
  shows "js_gt (totalDiff d1 d2 (4 * k)) (Fin thr) = pixel_changed thr d1 d2 k"
  using assms by (simp add: totalDiff_def elem_def js_sub_def js_gt_def pixel_changed_def)

lemma diffLoop_count:
  assumes "length d1 = 4 * n" "length d2 = 4 * n"
  shows "k \<le> n \<Longrightarrow>
         diffLoop thr d1 d2 (4 * k) c = c + length (filter (pixel_changed thr d1 d2) [k ..< n])"
proof (induction "n - k" arbitrary: k c)
  case 0
  then have "k = n" by simp
  then show ?case using assms by (subst diffLoop.simps) simp
next
  case (Suc m)
  then have kn: "k < n" by simp
  have r: "4 * k + 3 < length d1" "length d2 = length d1" using kn assms by simp_all
  have i: "4 * k + 4 = 4 * Suc k" by simp
  have ih: "diffLoop thr d1 d2 (4 * Suc k) c' =
              c' + length (filter (pixel_changed thr d1 d2) [Suc k ..< n])" for c'
    using Suc.hyps(1)[of "Suc k" c'] Suc.hyps(2) kn by simp
  have u: "[k ..< n] = k # [Suc k ..< n]" using kn by (simp add: upt_conv_Cons)
  have lt: "4 * k < length d1" using r by simp
  show ?case
    by (subst diffLoop.simps) (simp only: lt if_True totalDiff_in_range[OF r] i ih u, simp)
qed

lemma compareFrames_as_fraction:
  assumes "wf_frame A" "wf_frame B" "width B = width A" "height B = height A"
  shows "compareFrames cfg A B = Fin (changed_fraction (pixelDiffThreshold cfg) A B)"
proof -
  let ?n = "width A * height A"
  have l: "length (data A) = 4 * ?n" "length (data B) = 4 * ?n" and n: "0 < ?n"
    using assms by (simp_all add: wf_frame_def)
  have "diffLoop (pixelDiffThreshold cfg) (data A) (data B) (4 * 0) 0
          = 0 + length (filter (pixel_changed (pixelDiffThreshold cfg) (data A) (data B)) [0 ..< ?n])"
    by (rule diffLoop_count[OF l]) simp
  then have c: "diffLoop (pixelDiffThreshold cfg) (data A) (data B) 0 0
          = length (filter (pixel_changed (pixelDiffThreshold cfg) (data A) (data B)) [0 ..< ?n])"
    by simp
  have tp: "js_div (Fin (real (length (data A)))) (Fin 4) = Fin (real ?n)"
    by (simp add: l)
  have nz: "real ?n \<noteq> 0" using n by simp
  show ?thesis
    unfolding compareFrames_def Let_def tp c changed_fraction_def using nz by simp
qed

text \<open>
  C8. With a per-pixel threshold that is not negative (the default is 20): the differ
  gives 0 for a frame against itself, whatever its dimensions; it gives the same value
  for \<open>A\<close> against \<open>B\<close> and \<open>B\<close> against \<open>A\<close> when the two frames have the same dimensions;
  and for such frames its value is the number of pixels whose absolute red, green and
  blue differences sum to more than the threshold, divided by the number of pixels.
\<close>

theorem C8_differ_zero_on_same_and_symmetric:
  assumes "0 \<le> pixelDiffThreshold cfg" and "wf_frame A" and "wf_frame B"
    and "width B = width A" and "height B = height A"
  shows "compareFrames cfg A A = Fin 0
       \<and> compareFrames cfg A B = compareFrames cfg B A
       \<and> compareFrames cfg A B = Fin (changed_fraction (pixelDiffThreshold cfg) A B)"
proof -
  have n: "length (data A) \<noteq> 0" using assms(2) by (simp add: wf_frame_def)
  have 1: "compareFrames cfg A A = Fin 0"
    using n by (simp add: compareFrames_def Let_def diffLoop_same[OF assms(1)])
  have l: "length (data A) = length (data B)"
    using assms by (simp add: wf_frame_def)
  have 2: "compareFrames cfg A B = compareFrames cfg B A"
    by (simp only: compareFrames_def Let_def diffLoop_sym[OF l] l)
  show ?thesis using 1 2 compareFrames_as_fraction[OF assms(2-5)] by simp
qed

theorem C8_differ_zero_on_same_and_symmetric_witness:
  "0 \<le> pixelDiffThreshold default_config \<and> wf_frame frame_a \<and> wf_frame frame_b
   \<and> width frame_b = width frame_a \<and> height frame_b = height frame_a
   \<and> compareFrames default_config frame_a frame_a = Fin 0
   \<and> compareFrames default_config frame_a frame_b = Fin (1 / 2)
   \<and> compareFrames default_config frame_b frame_a = Fin (1 / 2)
   \<and> changed_fraction (pixelDiffThreshold default_config) frame_a frame_b = 1 / 2"
proof -
  have h: "0 \<le> pixelDiffThreshold default_config" "wf_frame frame_a" "wf_frame frame_b"
    "width frame_b = width frame_a" "height frame_b = height frame_a"
    by (simp_all add: default_config_simps wf_frame_def frame_a_def frame_b_def)
  have v: "compareFrames default_config frame_a frame_b = Fin (1 / 2)"
    by (simp add: compareFrames_def frame_a_def frame_b_def default_config_simps
        diffLoop.simps totalDiff_def elem_def js_sub_def js_gt_def)
  from C8_differ_zero_on_same_and_symmetric [OF h] v h show ?thesis by simp
qed

section \<open>Sampler ticks while a pass is in flight\<close>






section \<open>Merging: the groups are the connected components\<close>

lemma boxesOverlap_sym: "boxesOverlap a b = boxesOverlap b a"
  by (auto simp: boxesOverlap_def split: prod.splits)

lemma overlaps_sym: "overlaps regions i j = overlaps regions j i"
  unfolding overlaps_def by (rule boxesOverlap_sym)

lemma sym_overlapEdges: "sym (overlapEdges regions)"
  using overlaps_sym by (auto simp: sym_def overlapEdges_def)

lemma overlapEdges_rtrancl_sym:
  "(a, b) \<in> (overlapEdges regions)\<^sup>* \<Longrightarrow> (b, a) \<in> (overlapEdges regions)\<^sup>*"
  using sym_rtrancl[OF sym_overlapEdges] by (auto dest: symD)

lemma scanStep_group_inv:
  assumes "group_inv regions g0 u0 g u" "j < length regions"
  shows "group_inv regions g0 u0 (fst (scanStep regions j (g, u, c)))
           (fst (snd (scanStep regions j (g, u, c))))"
proof (cases "j \<notin> u \<and> list_ex (\<lambda>m. boxesOverlap (box (regions ! j)) (box (regions ! m))) g")
  case False
  then have "scanStep regions j (g, u, c) = (g, u, c)"
    by (auto simp: scanStep_def)
  with assms show ?thesis by simp
next
  case True
  then have s: "scanStep regions j (g, u, c) = (g @ [j], insert j u, True)"
    by (auto simp: scanStep_def)
  from True obtain m where m: "m \<in> set g" "overlaps regions j m"
    by (auto simp: list_ex_iff overlaps_def)
  have g: "g \<noteq> []" "distinct g" "set g \<subseteq> {..<length regions}"
    "\<forall>a \<in> set g. (hd g, a) \<in> (overlapEdges regions)\<^sup>*"
    "hd g = hd g0" "set g0 \<subseteq> set g" "u = u0 \<union> set g" "(set g - set g0) \<inter> u0 = {}"
    using assms(1) by (auto simp: group_inv_def)
  have jg: "j \<notin> set g" using True g(7) by auto
  have ju: "j \<notin> u0" using True g(7) by auto
  have "(m, j) \<in> overlapEdges regions"
    using m g(3) assms(2) overlaps_sym[of regions j m] by (auto simp: overlapEdges_def)
  then have "(hd g, j) \<in> (overlapEdges regions)\<^sup>*"
    using g(4) m(1) by (meson rtrancl.rtrancl_into_rtrancl)
  then show ?thesis
    unfolding s using g jg ju assms(2) by (auto simp: group_inv_def)
qed

lemma fold_scanStep_group_inv:
  assumes "set js \<subseteq> {..<length regions}"
  shows "group_inv regions g0 u0 (fst s) (fst (snd s)) \<Longrightarrow>
         group_inv regions g0 u0 (fst (fold (scanStep regions) js s))
           (fst (snd (fold (scanStep regions) js s)))"
  using assms
proof (induction js arbitrary: s)
  case Nil
  then show ?case by simp
next
  case (Cons j js)
  obtain g u c where s: "s = (g, u, c)" by (cases s) auto
  have "group_inv regions g0 u0 (fst (scanStep regions j s)) (fst (snd (scanStep regions j s)))"
    using scanStep_group_inv[of regions g0 u0 g u j c] Cons.prems s by simp
  then show ?case using Cons.IH[of "scanStep regions j s"] Cons.prems by simp
qed

lemma scanPass_group_inv:
  "group_inv regions g0 u0 g u \<Longrightarrow>
   group_inv regions g0 u0 (fst (scanPass regions g u)) (fst (snd (scanPass regions g u)))"
proof -
  assume a: "group_inv regions g0 u0 g u"
  have b: "set [0 ..< length regions] \<subseteq> {..<length regions}" by auto
  show ?thesis
    unfolding scanPass_def
    using fold_scanStep_group_inv[OF b, of g0 u0 "(g, u, False)"] a by simp
qed

lemma growGroup_group_inv:
  "group_inv regions g0 u0 g u \<Longrightarrow>
   group_inv regions g0 u0 (fst (growGroup regions g u)) (snd (growGroup regions g u))"
proof (induction regions g u rule: growGroup.induct)
  case (1 regions grp used)
  note p = scanPass_group_inv[OF "1.prems"]
  show ?case
  proof (cases "snd (snd (scanPass regions grp used))")
    case True
    then show ?thesis
      using "1.IH"[OF refl True p] by (subst (1 2) growGroup.simps) (simp add: Let_def)
  next
    case False
    then show ?thesis
      using p by (subst (1 2) growGroup.simps) (simp add: Let_def)
  qed
qed

text \<open>A pass that leaves \<open>changed\<close> false has added nothing and has seen no overlap.\<close>

lemma fold_scanStep_unchanged:
  "\<not> snd (snd (fold (scanStep regions) js s)) \<Longrightarrow>
   fold (scanStep regions) js s = s
   \<and> (\<forall>j \<in> set js. j \<notin> fst (snd s) \<longrightarrow> (\<forall>m \<in> set (fst s). \<not> overlaps regions j m))"
proof (induction js arbitrary: s)
  case Nil
  then show ?case by simp
next
  case (Cons j js)
  have ih: "fold (scanStep regions) js (scanStep regions j s) = scanStep regions j s"
    "\<forall>k \<in> set js. k \<notin> fst (snd (scanStep regions j s)) \<longrightarrow>
        (\<forall>m \<in> set (fst (scanStep regions j s)). \<not> overlaps regions k m)"
    using Cons.IH[of "scanStep regions j s"] Cons.prems by simp_all
  have nc: "\<not> snd (snd (scanStep regions j s))" using Cons.prems ih(1) by simp
  obtain g u c where s: "s = (g, u, c)" by (cases s) auto
  have e: "scanStep regions j s = s"
    and j: "j \<notin> u \<longrightarrow> (\<forall>m \<in> set g. \<not> overlaps regions j m)"
    using nc unfolding s
    by (auto simp: scanStep_def list_ex_iff overlaps_def split: if_splits)
  show ?case using ih e j s by simp
qed

lemma growGroup_closed:
  "j < length regions \<Longrightarrow> j \<notin> snd (growGroup regions g u) \<Longrightarrow>
   m \<in> set (fst (growGroup regions g u)) \<Longrightarrow> \<not> overlaps regions j m"
proof (induction regions g u rule: growGroup.induct)
  case (1 regions grp used)
  show ?case
  proof (cases "snd (snd (scanPass regions grp used))")
    case True
    have e: "growGroup regions grp used
          = growGroup regions (fst (scanPass regions grp used)) (fst (snd (scanPass regions grp used)))"
      using True by (subst growGroup.simps) (simp add: Let_def)
    show ?thesis using "1.IH"[OF refl True] "1.prems" unfolding e by simp
  next
    case False
    have e: "growGroup regions grp used
          = (fst (scanPass regions grp used), fst (snd (scanPass regions grp used)))"
      using False by (subst growGroup.simps) (simp add: Let_def)
    have u: "scanPass regions grp used = (grp, used, False)"
      and c: "\<forall>k \<in> set [0 ..< length regions]. k \<notin> used \<longrightarrow> (\<forall>m \<in> set grp. \<not> overlaps regions k m)"
      using fold_scanStep_unchanged[of regions "[0 ..< length regions]" "(grp, used, False)"] False
      by (simp_all add: scanPass_def)
    show ?thesis using "1.prems" c unfolding e u by simp
  qed
qed

lemma seedStep_groups_inv:
  assumes "groups_inv regions gs used" "i < length regions"
  shows "groups_inv regions (fst (seedStep regions i (gs, used)))
           (snd (seedStep regions i (gs, used)))
       \<and> insert i used \<subseteq> snd (seedStep regions i (gs, used))"
proof (cases "i \<in> used")
  case True
  then show ?thesis using assms by (simp add: seedStep_def)
next
  case False
  obtain g u where gu: "growGroup regions [i] (insert i used) = (g, u)"
    by (cases "growGroup regions [i] (insert i used)") auto
  have s: "seedStep regions i (gs, used) = (gs @ [g], u)"
    using False gu by (simp add: seedStep_def)
  have "group_inv regions [i] (insert i used) [i] (insert i used)"
    using assms(2) by (simp add: group_inv_def)
  from growGroup_group_inv[OF this] gu
  have gi: "group_inv regions [i] (insert i used) g u" by simp
  then have g: "g \<noteq> []" "distinct g" "set g \<subseteq> {..<length regions}"
    "\<forall>a \<in> set g. (hd g, a) \<in> (overlapEdges regions)\<^sup>*"
    "i \<in> set g" "u = insert i used \<union> set g" "(set g - {i}) \<inter> insert i used = {}"
    by (auto simp: group_inv_def)
  have u: "u = used \<union> set g" using g(5,6) by auto
  have dj: "set g \<inter> used = {}" using g(7) False by auto
  have o: "used = \<Union> (set ` set gs)" "used \<subseteq> {..<length regions}" "distinct (concat gs)"
    "\<forall>h \<in> set gs. h \<noteq> [] \<and> (\<forall>a \<in> set h. (hd h, a) \<in> (overlapEdges regions)\<^sup>*)"
    "\<forall>h \<in> set gs. \<forall>a \<in> set h. \<forall>b < length regions. b \<notin> set h \<longrightarrow> \<not> overlaps regions a b"
    using assms(1) by (auto simp: groups_inv_def)
  have closed: "\<not> overlaps regions a b"
    if "a \<in> set g" "b < length regions" "b \<notin> set g" for a b
  proof (cases "b \<in> used")
    case True
    then obtain h where h: "h \<in> set gs" "b \<in> set h" using o(1) by auto
    have "a \<notin> set h" using that(1) dj h(1) o(1) by auto
    moreover have "a < length regions" using that(1) g(3) by auto
    ultimately have "\<not> overlaps regions b a" using o(5) h by blast
    then show ?thesis using overlaps_sym by blast
  next
    case False
    then have "b \<notin> snd (growGroup regions [i] (insert i used))"
      using that(3) gu u by simp
    moreover have "a \<in> set (fst (growGroup regions [i] (insert i used)))"
      using that(1) gu by simp
    ultimately have "\<not> overlaps regions b a"
      using growGroup_closed[OF that(2)] by blast
    then show ?thesis using overlaps_sym by blast
  qed
  have 1: "u = \<Union> (set ` set (gs @ [g]))" using u o(1) by auto
  have 2: "u \<subseteq> {..<length regions}" using u o(2) g(3) by auto
  have 3: "distinct (concat (gs @ [g]))" using o(1,3) g(2) dj by auto
  have 4: "\<forall>h \<in> set (gs @ [g]). h \<noteq> [] \<and> (\<forall>a \<in> set h. (hd h, a) \<in> (overlapEdges regions)\<^sup>*)"
    using o(4) g(1,4) by auto
  have 5: "\<forall>h \<in> set (gs @ [g]). \<forall>a \<in> set h. \<forall>b < length regions.
             b \<notin> set h \<longrightarrow> \<not> overlaps regions a b"
    using o(5) closed by auto
  have "groups_inv regions (gs @ [g]) u"
    unfolding groups_inv_def using 1 2 3 4 5 by blast
  then show ?thesis using s u g(5) by auto
qed

lemma fold_seedStep_groups_inv:
  "k \<le> length regions \<Longrightarrow>
   groups_inv regions (fst (fold (seedStep regions) [0 ..< k] ([], {})))
     (snd (fold (seedStep regions) [0 ..< k] ([], {})))
   \<and> {..<k} \<subseteq> snd (fold (seedStep regions) [0 ..< k] ([], {}))"
proof (induction k)
  case 0
  show ?case by (simp add: groups_inv_def)
next
  case (Suc k)
  obtain gs used where f: "fold (seedStep regions) [0 ..< k] ([], {}) = (gs, used)"
    by (cases "fold (seedStep regions) [0 ..< k] ([], {})") auto
  have ih: "groups_inv regions gs used" "{..<k} \<subseteq> used"
    using Suc f by simp_all
  have k: "k < length regions" using Suc.prems by simp
  have e: "fold (seedStep regions) [0 ..< Suc k] ([], {}) = seedStep regions k (gs, used)"
    by (simp add: f)
  have "{..<Suc k} \<subseteq> insert k used" using ih(2) by (auto simp: less_Suc_eq)
  then show ?case
    unfolding e using seedStep_groups_inv[OF ih(1) k] by blast
qed

lemma overlapGroups_inv: "groups_inv regions (overlapGroups regions) {..<length regions}"
proof -
  let ?s = "fold (seedStep regions) [0 ..< length regions] ([], {})"
  have a: "groups_inv regions (fst ?s) (snd ?s)" "{..<length regions} \<subseteq> snd ?s"
    using fold_seedStep_groups_inv[of "length regions" regions] by simp_all
  then have "snd ?s = {..<length regions}" by (auto simp: groups_inv_def)
  with a(1) show ?thesis by (simp add: overlapGroups_def)
qed

lemma overlapGroups_facts:
  "\<Union> (set ` set (overlapGroups regions)) = {..<length regions}"
  "distinct (concat (overlapGroups regions))"
  "g \<in> set (overlapGroups regions) \<Longrightarrow> g \<noteq> []"
  "g \<in> set (overlapGroups regions) \<Longrightarrow> a \<in> set g \<Longrightarrow> (hd g, a) \<in> (overlapEdges regions)\<^sup>*"
  "g \<in> set (overlapGroups regions) \<Longrightarrow> a \<in> set g \<Longrightarrow> b < length regions \<Longrightarrow>
     b \<notin> set g \<Longrightarrow> \<not> overlaps regions a b"
  using overlapGroups_inv[of regions] unfolding groups_inv_def by blast+

lemma group_is_component:
  assumes "g \<in> set (overlapGroups regions)"
  shows "set g = component regions (hd g)"
proof
  show "set g \<subseteq> component regions (hd g)"
    using overlapGroups_facts(4)[OF assms] by (auto simp: component_def)
next
  have "b \<in> set g" if "(hd g, b) \<in> (overlapEdges regions)\<^sup>*" for b
    using that
  proof (induction rule: rtrancl_induct)
    case base
    show ?case using overlapGroups_facts(3)[OF assms] by simp
  next
    case (step a b)
    then have "b < length regions" "overlaps regions a b"
      by (auto simp: overlapEdges_def)
    then show ?case using overlapGroups_facts(5)[OF assms step.IH] by blast
  qed
  then show "component regions (hd g) \<subseteq> set g" by (auto simp: component_def)
qed

lemma component_eq:
  assumes "i \<in> component regions s"
  shows "component regions i = component regions s"
proof -
  have a: "(s, i) \<in> (overlapEdges regions)\<^sup>*" using assms by (simp add: component_def)
  have b: "(i, s) \<in> (overlapEdges regions)\<^sup>*" by (rule overlapEdges_rtrancl_sym[OF a])
  show ?thesis
    unfolding component_def using a b by (auto intro: rtrancl_trans)
qed

lemma groups_are_components:
  "set ` set (overlapGroups regions) = component regions ` {..<length regions}"
proof
  show "set ` set (overlapGroups regions) \<subseteq> component regions ` {..<length regions}"
  proof
    fix S assume "S \<in> set ` set (overlapGroups regions)"
    then obtain g where g: "g \<in> set (overlapGroups regions)" "S = set g" by auto
    have "hd g \<in> set g" using overlapGroups_facts(3)[OF g(1)] by simp
    then have "hd g < length regions" using overlapGroups_facts(1)[of regions] g(1) by auto
    then show "S \<in> component regions ` {..<length regions}"
      using group_is_component[OF g(1)] g(2) by auto
  qed
next
  show "component regions ` {..<length regions} \<subseteq> set ` set (overlapGroups regions)"
  proof
    fix S assume "S \<in> component regions ` {..<length regions}"
    then obtain i where i: "i < length regions" "S = component regions i" by auto
    then obtain g where g: "g \<in> set (overlapGroups regions)" "i \<in> set g"
      using overlapGroups_facts(1)[of regions] by blast
    have "i \<in> component regions (hd g)" using group_is_component[OF g(1)] g(2) by simp
    then have "S = set g" using component_eq i(2) group_is_component[OF g(1)] by simp
    then show "S \<in> set ` set (overlapGroups regions)" using g(1) by auto
  qed
qed

lemma groups_disjoint:
  assumes "p < q" "q < length (overlapGroups regions)"
  shows "set (overlapGroups regions ! p) \<inter> set (overlapGroups regions ! q) = {}"
proof -
  have "distinct (concat gs) \<Longrightarrow> p < q \<Longrightarrow> q < length gs \<Longrightarrow> set (gs ! p) \<inter> set (gs ! q) = {}"
    for gs :: "nat list list"
  proof (induction gs arbitrary: p q)
    case Nil
    then show ?case by simp
  next
    case (Cons h gs)
    show ?case
    proof (cases p)
      case 0
      then obtain q' where q': "q = Suc q'" using Cons.prems(2) by (cases q) auto
      then have "gs ! q' \<in> set gs" using Cons.prems(3) by simp
      then show ?thesis using Cons.prems(1) 0 q' by auto
    next
      case (Suc p')
      then obtain q' where q': "q = Suc q'" using Cons.prems(2) by (cases q) auto
      show ?thesis using Cons.IH[of p' q'] Cons.prems Suc q' by simp
    qed
  qed
  then show ?thesis using overlapGroups_facts(2) assms by blast
qed

lemmas merge_eval = mergeOverlappingBoxes_def overlapGroups_def seedStep_def growGroup.simps
  scanPass_def scanStep_def boxesOverlap_def mergeGroup_def upt_rec

lemma nested_groups: "overlapGroups nested_regions = [[0, 1], [2]]"
  by (simp add: nested_regions_def merge_eval)

lemma nested_merged:
  "mergeOverlappingBoxes nested_regions =
     [\<lparr> box = (Fin 0, Fin 0, Fin 10, Fin 10), score = Fin 0.9 \<rparr>,
      \<lparr> box = (Fin 2, Fin 5, Fin 4, Fin 7), score = Fin 0.7 \<rparr>]"
  by (simp add: nested_regions_def merge_eval)

text \<open>
  C2, as stated, fails. Two boxes that overlap in a corner are merged into their union
  box; a third box inside that union, overlapping neither of them, stays a region of its
  own. The two regions returned intersect under \<open>boxesOverlap\<close>.
\<close>

theorem C2_merged_regions_overlap_counterexample:
  "length (mergeOverlappingBoxes nested_regions) = 2
   \<and> boxesOverlap (box (mergeOverlappingBoxes nested_regions ! 0))
                  (box (mergeOverlappingBoxes nested_regions ! 1))"
  by (simp add: nested_merged) (simp add: boxesOverlap_def)

text \<open>
  C2, amended. The merged regions are the union boxes of groups of input boxes; every
  input box is in exactly one group, and no input box of one group overlaps an input
  box of another group under \<open>boxesOverlap\<close>.
\<close>

theorem C2_groups_are_pairwise_separated:
  "mergeOverlappingBoxes regions = map (mergeGroup regions) (overlapGroups regions)
   \<and> \<Union> (set ` set (overlapGroups regions)) = {..<length regions}
   \<and> distinct (concat (overlapGroups regions))
   \<and> (\<forall>q < length (overlapGroups regions). \<forall>p < q.
        \<forall>i \<in> set (overlapGroups regions ! p). \<forall>j \<in> set (overlapGroups regions ! q).
          \<not> boxesOverlap (box (regions ! i)) (box (regions ! j)))"
proof -
  have e: "overlapGroups [] = []" by (simp add: overlapGroups_def)
  have 1: "mergeOverlappingBoxes regions = map (mergeGroup regions) (overlapGroups regions)"
    by (cases regions) (simp_all add: mergeOverlappingBoxes_def e)
  have 4: "\<not> boxesOverlap (box (regions ! i)) (box (regions ! j))"
    if "q < length (overlapGroups regions)" "p < q"
      "i \<in> set (overlapGroups regions ! p)" "j \<in> set (overlapGroups regions ! q)"
    for p q i j
  proof -
    have gp: "overlapGroups regions ! p \<in> set (overlapGroups regions)"
      and gq: "overlapGroups regions ! q \<in> set (overlapGroups regions)"
      using that(1,2) by simp_all
    have "j < length regions" using overlapGroups_facts(1)[of regions] gq that(4) by blast
    moreover have "j \<notin> set (overlapGroups regions ! p)"
      using groups_disjoint[OF that(2,1)] that(4) by blast
    ultimately have "\<not> overlaps regions i j"
      using overlapGroups_facts(5)[OF gp that(3)] by blast
    then show ?thesis by (simp add: overlaps_def)
  qed
  show ?thesis
    using 1 overlapGroups_facts(1,2)[of regions] 4 by blast
qed

theorem C2_groups_are_pairwise_separated_witness:
  "overlapGroups nested_regions = [[0, 1], [2]]
   \<and> \<not> boxesOverlap (box (nested_regions ! 0)) (box (nested_regions ! 2))
   \<and> \<not> boxesOverlap (box (nested_regions ! 1)) (box (nested_regions ! 2))"
proof -
  have s: "\<forall>q < length (overlapGroups nested_regions). \<forall>p < q.
        \<forall>i \<in> set (overlapGroups nested_regions ! p).
        \<forall>j \<in> set (overlapGroups nested_regions ! q).
          \<not> boxesOverlap (box (nested_regions ! i)) (box (nested_regions ! j))"
    using C2_groups_are_pairwise_separated [of nested_regions] by blast
  have r: "\<not> boxesOverlap (box (nested_regions ! i)) (box (nested_regions ! j))"
    if "i \<in> set [0, 1]" "j \<in> set [2]" for i j :: nat
    using s[rule_format, of 1 0 i j] that by (simp add: nested_groups)
  show ?thesis using r[of 0 2] r[of 1 2] by (simp add: nested_groups)
qed

section \<open>Merging: the union box of a group\<close>

lemma Min_insert_min:
  "finite A \<Longrightarrow> Min (insert (min a x) A) = Min (insert a (insert x A))" for a :: real
  by (cases "A = {}") (auto simp: min.assoc)

lemma Max_insert_max:
  "finite A \<Longrightarrow> Max (insert (max a x) A) = Max (insert a (insert x A))" for a :: real
  by (cases "A = {}") (auto simp: max.assoc)

lemma js_min_Fin: "js_min (Fin a) (Fin b) = Fin (min a b)"
  by (simp add: min_def)

lemma js_max_Fin: "js_max (Fin a) (Fin b) = Fin (max a b)"
  by (simp add: max_def)

lemma finite_regionE:
  assumes "finite_region r"
  shows "box r = (Fin (box_left r), Fin (box_top r), Fin (box_right r), Fin (box_bottom r))"
    and "score r = Fin (num (score r))"
proof -
  obtain x1 y1 x2 y2 where b: "box r = (x1, y1, x2, y2)" by (cases "box r") auto
  have "is_fin x \<Longrightarrow> x = Fin (num x)" for x by (cases x) auto
  then show "box r = (Fin (box_left r), Fin (box_top r), Fin (box_right r), Fin (box_bottom r))"
    and "score r = Fin (num (score r))"
    using assms b by (auto simp: finite_region_def box_left_def box_top_def box_right_def box_bottom_def)
qed

lemma fold_union_Fin:
  assumes "\<forall>i \<in> set g. finite_region (regions ! i)"
  shows "fold (\<lambda>idx (minX, minY, maxX, maxY, maxScore).
                   case box (regions ! idx) of (x1, y1, x2, y2) \<Rightarrow>
                     (js_min minX x1, js_min minY y1, js_max maxX x2, js_max maxY y2,
                      js_max maxScore (score (regions ! idx))))
             g (Fin a, Fin b, Fin c, Fin d, Fin e)
         = (Fin (Min (insert a ((\<lambda>i. box_left (regions ! i)) ` set g))),
            Fin (Min (insert b ((\<lambda>i. box_top (regions ! i)) ` set g))),
            Fin (Max (insert c ((\<lambda>i. box_right (regions ! i)) ` set g))),
            Fin (Max (insert d ((\<lambda>i. box_bottom (regions ! i)) ` set g))),
            Fin (Max (insert e ((\<lambda>i. num (score (regions ! i))) ` set g))))"
  using assms
proof (induction g arbitrary: a b c d e)
  case Nil
  show ?case by simp
next
  case (Cons i g)
  have f: "finite_region (regions ! i)" using Cons.prems by simp
  note bx = finite_regionE(1)[OF f] and sc = finite_regionE(2)[OF f]
  have ih: "\<forall>i \<in> set g. finite_region (regions ! i)" using Cons.prems by simp
  show ?case
    apply (simp only: fold_simps prod.case)
    apply (subst bx, subst sc)
    apply (simp only: prod.case js_min_Fin js_max_Fin Cons.IH[OF ih])
    apply (simp add: Min_insert_min Max_insert_max)
    done
qed

lemma mergeGroup_enclose:
  assumes "g \<noteq> []" "\<forall>i \<in> set g. finite_region (regions ! i)"
  shows "mergeGroup regions g = enclose regions (set g)"
proof -
  obtain i g' where g: "g = i # g'" using assms(1) by (cases g) auto
  have f: "finite_region (regions ! i)" using assms(2) g by simp
  note bx = finite_regionE(1)[OF f] and sc = finite_regionE(2)[OF f]
  have r: "\<forall>i \<in> set g'. finite_region (regions ! i)" using assms(2) g by simp
  show ?thesis
    unfolding mergeGroup_def enclose_def g
    apply (simp only: fold_simps prod.case)
    apply (subst bx, subst sc)
    apply (simp only: prod.case js_min.simps js_max.simps js_le.simps if_False if_True
        fold_union_Fin[OF r])
    apply simp
    done
qed

lemma distinct_group_sets: "distinct (map set (overlapGroups regions))"
proof -
  let ?gs = "overlapGroups regions"
  have ne: "set (?gs ! p) \<noteq> set (?gs ! q)" if "p < q" "q < length ?gs" for p q
  proof -
    have "?gs ! p \<in> set ?gs" using that by simp
    then have "set (?gs ! p) \<noteq> {}" using overlapGroups_facts(3) by auto
    then show ?thesis using groups_disjoint[OF that] by auto
  qed
  have "set (?gs ! p) \<noteq> set (?gs ! q)" if "p < length ?gs" "q < length ?gs" "p \<noteq> q" for p q
    using ne[of p q] ne[of q p] that by (cases "p < q") auto
  then show ?thesis by (simp add: distinct_conv_nth)
qed

text \<open>
  C6. Of the three boxes, A overlaps B, B overlaps C, and A and C are disjoint under the
  reducer's test, which for finite coordinates is the strict intersection of the two
  rectangles; whatever their scores, the three merge into exactly one region with box
  [0, 0, 30, 10]. In general the overlap graph has an edge between two input boxes
  exactly when the test answers true on them, and the list returned holds one region
  for each connected component of that graph and nothing else; for input regions with
  finite numbers the region of a component has the minimal rectangle enclosing the
  component's boxes and the maximal score among them.
\<close>

theorem C6_components_collapse_to_enclosing_regions:
  "boxesOverlap (Fin 0, Fin 0, Fin 10, Fin 10) (Fin 8, Fin 0, Fin 20, Fin 10)
   \<and> boxesOverlap (Fin 8, Fin 0, Fin 20, Fin 10) (Fin 18, Fin 0, Fin 30, Fin 10)
   \<and> \<not> boxesOverlap (Fin 0, Fin 0, Fin 10, Fin 10) (Fin 18, Fin 0, Fin 30, Fin 10)
   \<and> map box (mergeOverlappingBoxes
            [\<lparr> box = (Fin 0, Fin 0, Fin 10, Fin 10), score = sA \<rparr>,
             \<lparr> box = (Fin 8, Fin 0, Fin 20, Fin 10), score = sB \<rparr>,
             \<lparr> box = (Fin 18, Fin 0, Fin 30, Fin 10), score = sC \<rparr>])
           = [(Fin 0, Fin 0, Fin 30, Fin 10)]
   \<and> boxesOverlap (Fin x1, Fin y1, Fin x2, Fin y2) (Fin u1, Fin v1, Fin u2, Fin v2)
       = (u1 < x2 \<and> x1 < u2 \<and> v1 < y2 \<and> y1 < v2)
   \<and> ((i, j) \<in> overlapEdges regions)
       = (i < length regions \<and> j < length regions
          \<and> boxesOverlap (box (regions ! i)) (box (regions ! j)))
   \<and> distinct (map set (overlapGroups regions))
   \<and> set (map set (overlapGroups regions)) = component regions ` {..<length regions}
   \<and> length (mergeOverlappingBoxes regions) = card (component regions ` {..<length regions})
   \<and> ((\<forall>r \<in> set regions. finite_region r) \<longrightarrow>
        mergeOverlappingBoxes regions
          = map (\<lambda>g. enclose regions (set g)) (overlapGroups regions))"
proof -
  have 0: "boxesOverlap (Fin 0, Fin 0, Fin 10, Fin 10) (Fin 8, Fin 0, Fin 20, Fin 10)"
    "boxesOverlap (Fin 8, Fin 0, Fin 20, Fin 10) (Fin 18, Fin 0, Fin 30, Fin 10)"
    "\<not> boxesOverlap (Fin 0, Fin 0, Fin 10, Fin 10) (Fin 18, Fin 0, Fin 30, Fin 10)"
    by (simp_all add: boxesOverlap_def)
  have 1: "map box (mergeOverlappingBoxes
            [\<lparr> box = (Fin 0, Fin 0, Fin 10, Fin 10), score = sA \<rparr>,
             \<lparr> box = (Fin 8, Fin 0, Fin 20, Fin 10), score = sB \<rparr>,
             \<lparr> box = (Fin 18, Fin 0, Fin 30, Fin 10), score = sC \<rparr>])
           = [(Fin 0, Fin 0, Fin 30, Fin 10)]"
    by (simp add: merge_eval)
  have t: "boxesOverlap (Fin x1, Fin y1, Fin x2, Fin y2) (Fin u1, Fin v1, Fin u2, Fin v2)
       = (u1 < x2 \<and> x1 < u2 \<and> v1 < y2 \<and> y1 < v2)"
    by (auto simp add: boxesOverlap_def)
  have g: "((i, j) \<in> overlapEdges regions)
       = (i < length regions \<and> j < length regions
          \<and> boxesOverlap (box (regions ! i)) (box (regions ! j)))"
    by (simp add: overlapEdges_def overlaps_def)
  have e: "overlapGroups [] = []" by (simp add: overlapGroups_def)
  have m: "mergeOverlappingBoxes regions = map (mergeGroup regions) (overlapGroups regions)"
    by (cases regions) (simp_all add: mergeOverlappingBoxes_def e)
  have d: "distinct (map set (overlapGroups regions))" by (rule distinct_group_sets)
  have c: "set (map set (overlapGroups regions)) = component regions ` {..<length regions}"
    using groups_are_components [of regions] by simp
  have "length (mergeOverlappingBoxes regions) = length (map set (overlapGroups regions))"
    unfolding m by simp
  also have "\<dots> = card (set (map set (overlapGroups regions)))"
    using d by (simp only: distinct_card)
  finally have l: "length (mergeOverlappingBoxes regions)
                     = card (component regions ` {..<length regions})"
    unfolding c .
  have 2: "mergeOverlappingBoxes regions
           = map (\<lambda>g. enclose regions (set g)) (overlapGroups regions)"
    if f: "\<forall>r \<in> set regions. finite_region r"
  proof -
    have "mergeGroup regions g = enclose regions (set g)"
      if "g \<in> set (overlapGroups regions)" for g
    proof -
      have "set g \<subseteq> {..<length regions}" using overlapGroups_facts(1)[of regions] that by blast
      then have "\<forall>i \<in> set g. finite_region (regions ! i)" using f by auto
      then show ?thesis using mergeGroup_enclose overlapGroups_facts(3)[OF that] by blast
    qed
    then show ?thesis unfolding m by simp
  qed
  show ?thesis using 0 1 t g d c l 2 by blast
qed

theorem C6_components_collapse_to_enclosing_regions_witness:
  "finite_region (chain_regions ! 0) \<and> finite_region (chain_regions ! 1)
   \<and> finite_region (chain_regions ! 2)
   \<and> boxesOverlap (box (chain_regions ! 0)) (box (chain_regions ! 1))
   \<and> boxesOverlap (box (chain_regions ! 1)) (box (chain_regions ! 2))
   \<and> \<not> boxesOverlap (box (chain_regions ! 0)) (box (chain_regions ! 2))
   \<and> (0, 1) \<in> overlapEdges chain_regions \<and> (1, 2) \<in> overlapEdges chain_regions
   \<and> (0, 2) \<notin> overlapEdges chain_regions
   \<and> overlapGroups chain_regions = [[0, 1, 2]]
   \<and> component chain_regions ` {..<length chain_regions} = {{0, 1, 2}}
   \<and> mergeOverlappingBoxes chain_regions = [enclose chain_regions {0, 1, 2}]
   \<and> enclose chain_regions {0, 1, 2}
       = \<lparr> box = (Fin 0, Fin 0, Fin 30, Fin 10), score = Fin 0.9 \<rparr>"
proof -
  note inst = C6_components_collapse_to_enclosing_regions [where regions = chain_regions]
  have f: "finite_region (chain_regions ! 0)" "finite_region (chain_regions ! 1)"
    "finite_region (chain_regions ! 2)"
    by (simp_all add: chain_regions_def finite_region_def)
  have h: "\<forall>r \<in> set chain_regions. finite_region r"
    by (simp add: chain_regions_def finite_region_def)
  have b: "box (chain_regions ! 0) = (Fin 0, Fin 0, Fin 10, Fin 10)"
    "box (chain_regions ! 1) = (Fin 8, Fin 0, Fin 20, Fin 10)"
    "box (chain_regions ! 2) = (Fin 18, Fin 0, Fin 30, Fin 10)"
    "length chain_regions = 3"
    by (simp_all add: chain_regions_def)
  have o: "boxesOverlap (box (chain_regions ! 0)) (box (chain_regions ! 1))"
    "boxesOverlap (box (chain_regions ! 1)) (box (chain_regions ! 2))"
    "\<not> boxesOverlap (box (chain_regions ! 0)) (box (chain_regions ! 2))"
    unfolding b using inst by blast+
  have ed: "(0, 1) \<in> overlapEdges chain_regions" "(1, 2) \<in> overlapEdges chain_regions"
    "(0, 2) \<notin> overlapEdges chain_regions"
    using inst [where i = 0 and j = 1] inst [where i = 1 and j = 2] inst [where i = 0 and j = 2]
      o b(4)
    by simp_all
  have g: "overlapGroups chain_regions = [[0, 1, 2]]"
    by (simp add: chain_regions_def merge_eval)
  have c: "component chain_regions ` {..<length chain_regions} = {{0, 1, 2}}"
    using inst by (simp add: g)
  have m: "mergeOverlappingBoxes chain_regions = [enclose chain_regions {0, 1, 2}]"
    using inst h by (simp add: g)
  have e: "enclose chain_regions {0, 1, 2}
       = \<lparr> box = (Fin 0, Fin 0, Fin 30, Fin 10), score = Fin 0.9 \<rparr>"
    by (simp add: enclose_def chain_regions_def box_left_def box_top_def box_right_def
        box_bottom_def)
  show ?thesis using f o ed g c m e by simp
qed

section \<open>Double-precision arithmetic: evaluation and signs\<close>

lemma binary64_zero: "binary64 0 = Fin 0"
  by (simp add: binary64_def)

lemma quantum_pos: "0 < quantum x"
  by (simp add: quantum_def)

lemma smallest_subnormal_pos: "0 < smallest_subnormal"
  by (simp add: smallest_subnormal_def)

lemma quantum_eval:
  assumes "2 powi e \<le> \<bar>x\<bar>" "\<bar>x\<bar> < 2 powi (e + 1)"
  shows "quantum x = 2 powi (max e min_exponent - 52)" and "x \<noteq> 0"
proof -
  have p: "(0 :: real) < 2 powi e" by simp
  have "0 < \<bar>x\<bar>" using assms(1) p by linarith
  then show x: "x \<noteq> 0" by simp
  have "(2 :: real) powr real_of_int e \<le> \<bar>x\<bar>" "\<bar>x\<bar> < 2 powr (real_of_int e + 1)"
    using assms powr_real_of_int'[of "2 :: real" e] powr_real_of_int'[of "2 :: real" "e + 1"]
    by simp_all
  then have "\<lfloor>log 2 \<bar>x\<bar>\<rfloor> = e"
    using floor_log_eq_powr_iff[of "\<bar>x\<bar>" 2 e] x by simp
  then show "quantum x = 2 powi (max e min_exponent - 52)" by (simp add: quantum_def)
qed

lemma binary64_eval:
  assumes "2 powi e \<le> \<bar>x\<bar>" "\<bar>x\<bar> < 2 powi (e + 1)"
  shows "binary64 x =
           (let q = 2 powi (max e min_exponent - 52);
                r = of_int (round_half_even (x / q)) * q
            in if overflow_threshold \<le> \<bar>r\<bar> then (if 0 < x then PosInf else NegInf)
               else Fin r)"
  using quantum_eval[OF assms] by (simp add: binary64_def Let_def)

lemma round_half_even_ge: "1 \<le> y \<Longrightarrow> 1 \<le> round_half_even y"
  by (auto simp: round_half_even_def Let_def)

lemma round_half_even_le: "y \<le> - 1 \<Longrightarrow> round_half_even y \<le> - 1"
proof -
  assume y: "y \<le> - 1"
  then have f: "\<lfloor>y\<rfloor> \<le> - 1" by linarith
  show ?thesis
  proof (cases "\<lfloor>y\<rfloor> = - 1")
    case True
    then have "y - of_int \<lfloor>y\<rfloor> = 0" using y by linarith
    then show ?thesis unfolding round_half_even_def Let_def using True by simp
  next
    case False
    then have "\<lfloor>y\<rfloor> + 1 \<le> - 1" using f by linarith
    then show ?thesis using f by (auto simp: round_half_even_def Let_def)
  qed
qed

lemma quantum_le:
  assumes "smallest_subnormal \<le> \<bar>x\<bar>"
  shows "quantum x \<le> \<bar>x\<bar>"
proof (cases "min_exponent \<le> \<lfloor>log 2 \<bar>x\<bar>\<rfloor>")
  case False
  then have "max \<lfloor>log 2 \<bar>x\<bar>\<rfloor> min_exponent = min_exponent" by simp
  then show ?thesis using assms by (simp add: quantum_def smallest_subnormal_def)
next
  case True
  have x: "0 < \<bar>x\<bar>" using assms smallest_subnormal_pos by linarith
  have "(2 :: real) powi (\<lfloor>log 2 \<bar>x\<bar>\<rfloor> - 52) \<le> 2 powi \<lfloor>log 2 \<bar>x\<bar>\<rfloor>"
    by (rule power_int_increasing) simp_all
  also have "\<dots> = 2 powr real_of_int \<lfloor>log 2 \<bar>x\<bar>\<rfloor>"
    using powr_real_of_int'[of "2 :: real" "\<lfloor>log 2 \<bar>x\<bar>\<rfloor>"] by simp
  also have "\<dots> \<le> 2 powr log 2 \<bar>x\<bar>"
    by (rule powr_mono) simp_all
  also have "\<dots> = \<bar>x\<bar>" using x by simp
  finally show ?thesis using True by (simp add: quantum_def max_def)
qed

lemma binary64_pos:
  assumes "smallest_subnormal \<le> x"
  shows "js_gt (binary64 x) (Fin 0)" and "\<not> js_lt (binary64 x) (Fin 0)"
proof -
  have q: "0 < quantum x" by (rule quantum_pos)
  have x: "0 < x" using assms smallest_subnormal_pos by linarith
  have "quantum x \<le> x" using quantum_le[of x] assms x by simp
  then have "1 \<le> x / quantum x" using q by (simp add: field_simps)
  then have "1 \<le> round_half_even (x / quantum x)" by (rule round_half_even_ge)
  then have "0 < of_int (round_half_even (x / quantum x)) * quantum x" using q by simp
  then show "js_gt (binary64 x) (Fin 0)" and "\<not> js_lt (binary64 x) (Fin 0)"
    using x by (simp_all add: binary64_def Let_def js_gt_def)
qed

lemma binary64_neg:
  assumes "x \<le> - smallest_subnormal"
  shows "js_lt (binary64 x) (Fin 0)" and "\<not> js_gt (binary64 x) (Fin 0)"
proof -
  have q: "0 < quantum x" by (rule quantum_pos)
  have x: "x < 0" using assms smallest_subnormal_pos by linarith
  have "quantum x \<le> - x" using quantum_le[of x] assms x by simp
  then have "x / quantum x \<le> - 1" using q by (simp add: field_simps)
  then have "round_half_even (x / quantum x) \<le> - 1" by (rule round_half_even_le)
  then have "of_int (round_half_even (x / quantum x)) * quantum x < 0"
    using q by (simp add: mult_neg_pos)
  then show "js_lt (binary64 x) (Fin 0)" and "\<not> js_gt (binary64 x) (Fin 0)"
    using x by (simp_all add: binary64_def Let_def js_gt_def)
qed

lemma binary64_on_grid: "binary64 x = Fin r \<Longrightarrow> on_grid r"
proof (cases "x = 0")
  case True
  assume "binary64 x = Fin r"
  then have "r = 0" using True by (simp add: binary64_def)
  then show ?thesis by (auto simp: on_grid_def intro: exI[of _ 0])
next
  case False
  assume b: "binary64 x = Fin r"
  define e where "e = max \<lfloor>log 2 \<bar>x\<bar>\<rfloor> min_exponent"
  have e: "0 \<le> e - min_exponent" by (simp add: e_def)
  have r: "r = of_int (round_half_even (x / quantum x)) * quantum x"
    using b False by (simp add: binary64_def Let_def split: if_splits)
  have "quantum x = 2 powi ((e - min_exponent) + (min_exponent - 52))"
    by (simp add: quantum_def e_def)
  also have "\<dots> = 2 powi (e - min_exponent) * 2 powi (min_exponent - 52)"
    by (rule power_int_add) simp
  also have "(2 :: real) powi (e - min_exponent) = of_int (2 ^ nat (e - min_exponent))"
    using e by (simp add: power_int_nonneg_exp)
  finally have "r = of_int (round_half_even (x / quantum x) * 2 ^ nat (e - min_exponent))
                      * smallest_subnormal"
    using r by (simp add: smallest_subnormal_def)
  then show ?thesis unfolding on_grid_def by blast
qed

lemma is_double_fl: "is_double (fl v)"
proof (cases v)
  case (Fin x)
  then show ?thesis using binary64_on_grid[of x] by (cases "binary64 x") simp_all
qed simp_all

text \<open>
  The difference of two binary64 values rounds to a number of the same sign: the
  comparators \<open>a - b\<close> of the sorts order finite numbers as \<open><\<close> does.
\<close>

lemma grid_diff:
  assumes "on_grid a" "on_grid b" "b < a"
  shows "smallest_subnormal \<le> a - b"
proof -
  obtain k l :: int where k: "a = of_int k * smallest_subnormal"
    and l: "b = of_int l * smallest_subnormal"
    using assms(1,2) unfolding on_grid_def by blast
  note g = smallest_subnormal_pos
  have "of_int l * smallest_subnormal < of_int k * smallest_subnormal"
    using assms(3) k l by simp
  then have "(of_int l :: real) < of_int k" using g by (simp only: mult_less_cancel_right_pos)
  then have "1 \<le> k - l" by linarith
  then have "(1 :: real) \<le> of_int (k - l)" by linarith
  then have "1 * smallest_subnormal \<le> of_int (k - l) * smallest_subnormal"
    using g by (simp only: mult_le_cancel_right_pos)
  then show ?thesis using k l by (simp add: algebra_simps)
qed

lemma fl_sub_sign:
  assumes "on_grid a" "on_grid b"
  shows "js_gt (fl_sub (Fin a) (Fin b)) (Fin 0) = (b < a)"
    and "js_lt (fl_sub (Fin a) (Fin b)) (Fin 0) = (a < b)"
    and "fl_sub (Fin a) (Fin b) \<noteq> NaN"
proof -
  have s: "fl_sub (Fin a) (Fin b) = binary64 (a - b)"
    by (simp add: fl_sub_def js_sub_def)
  consider "b < a" | "a < b" | "a = b" by linarith
  then have "js_gt (binary64 (a - b)) (Fin 0) = (b < a)
             \<and> js_lt (binary64 (a - b)) (Fin 0) = (a < b)"
  proof cases
    case 1
    then show ?thesis using binary64_pos[OF grid_diff[OF assms 1]] by simp
  next
    case 2
    have "a - b \<le> - smallest_subnormal" using grid_diff[OF assms(2,1) 2] by simp
    then show ?thesis using binary64_neg[of "a - b"] 2 by simp
  next
    case 3
    then show ?thesis by (simp add: binary64_zero js_gt_def)
  qed
  then show "js_gt (fl_sub (Fin a) (Fin b)) (Fin 0) = (b < a)"
    and "js_lt (fl_sub (Fin a) (Fin b)) (Fin 0) = (a < b)"
    unfolding s by simp_all
  show "fl_sub (Fin a) (Fin b) \<noteq> NaN"
    unfolding s by (simp add: binary64_def Let_def)
qed

lemmas binary64_consts = min_exponent_def overflow_threshold_def round_half_even_def Let_def

section \<open>The engine's sort\<close>

lemma js_insort_mset: "mset (js_insort cmp x ys) = add_mset x (mset ys)"
  by (induction ys) simp_all

lemma js_sort_Cons: "js_sort cmp (x # xs) = js_insort cmp x (js_sort cmp xs)"
  by (simp add: js_sort_def)

lemma js_sort_Nil: "js_sort cmp [] = []"
  by (simp add: js_sort_def)

lemma js_sort_mset: "mset (js_sort cmp xs) = mset xs"
  by (induction xs) (simp_all add: js_sort_Cons js_sort_Nil js_insort_mset)

lemma sort_spec_js_sort: "sort_spec js_sort"
  by (simp add: sort_spec_def js_sort_mset)

lemma sort_spec_mset: "sort_spec srt \<Longrightarrow> mset (srt cmp xs) = mset xs"
  by (simp add: sort_spec_def)

lemma sort_spec_set: "sort_spec srt \<Longrightarrow> set (srt cmp xs) = set xs"
  using sort_spec_mset mset_eq_setD by blast

lemma sort_spec_Nil: "sort_spec srt \<Longrightarrow> srt cmp [] = []"
  using sort_spec_mset [of srt cmp "[]"] by simp

lemma sort_spec_consistent:
  "sort_spec srt \<Longrightarrow> consistent_on cmp xs \<Longrightarrow> srt cmp xs = js_sort cmp xs"
  by (simp add: sort_spec_def)

lemma js_insort_set: "set (js_insort cmp x ys) = insert x (set ys)"
  by (induction ys) auto

lemma js_sort_set: "set (js_sort cmp xs) = set xs"
  by (induction xs) (simp_all add: js_sort_Cons js_sort_Nil js_insort_set)

lemma js_insort_sorted:
  assumes "\<forall>b \<in> set ys. js_gt (cmp x b) (Fin 0) = (key b < key x)"
    and "sorted_wrt (\<lambda>a b. key a \<le> key b) ys"
  shows "sorted_wrt (\<lambda>a b. (key a :: real) \<le> key b) (js_insort cmp x ys)"
  using assms
proof (induction ys)
  case Nil
  then show ?case by simp
next
  case (Cons y ys)
  show ?case
  proof (cases "js_gt (cmp x y) (Fin 0)")
    case True
    then have "key y < key x" using Cons.prems(1) by simp
    moreover have "sorted_wrt (\<lambda>a b. key a \<le> key b) (js_insort cmp x ys)"
      using Cons.IH Cons.prems by simp
    ultimately show ?thesis using True Cons.prems(2) by (auto simp add: js_insort_set)
  next
    case False
    then have "key x \<le> key y" using Cons.prems(1) by simp
    then show ?thesis using False Cons.prems(2) by auto
  qed
qed

lemma js_sort_sorted:
  assumes "\<forall>a \<in> set xs. \<forall>b \<in> set xs. js_gt (cmp a b) (Fin 0) = (key b < key a)"
  shows "sorted_wrt (\<lambda>a b. (key a :: real) \<le> key b) (js_sort cmp xs)"
  using assms
proof (induction xs)
  case Nil
  then show ?case by (simp add: js_sort_Nil)
next
  case (Cons x xs)
  have "sorted_wrt (\<lambda>a b. key a \<le> key b) (js_sort cmp xs)"
    using Cons.IH Cons.prems by simp
  moreover have "\<forall>b \<in> set (js_sort cmp xs). js_gt (cmp x b) (Fin 0) = (key b < key x)"
    using Cons.prems by (simp add: js_sort_set)
  ultimately show ?case unfolding js_sort_Cons by (rule js_insort_sorted [rotated])
qed

text \<open>A symmetric relation between the entries of a list survives every rearrangement.\<close>

lemma sorted_wrt_symmetric_mset:
  assumes "\<And>a b. P a b \<Longrightarrow> P b a"
  shows "sorted_wrt P xs = (\<forall>x y. x \<in># mset xs \<longrightarrow> y \<in># mset xs - {#x#} \<longrightarrow> P x y)"
proof (induction xs)
  case Nil
  then show ?case by simp
next
  case (Cons a xs)
  show ?case
  proof
    assume l: "sorted_wrt P (a # xs)"
    then have h: "\<forall>y \<in> set xs. P a y" and t: "sorted_wrt P xs" by simp_all
    show "\<forall>x y. x \<in># mset (a # xs) \<longrightarrow> y \<in># mset (a # xs) - {#x#} \<longrightarrow> P x y"
    proof (intro allI impI)
      fix x y
      assume x: "x \<in># mset (a # xs)" and y: "y \<in># mset (a # xs) - {#x#}"
      show "P x y"
      proof (cases "x = a")
        case True
        then have "y \<in># mset xs" using y by simp
        then show ?thesis using h True by simp
      next
        case False
        then have xin: "x \<in># mset xs" using x by simp
        have "mset (a # xs) - {#x#} = add_mset a (mset xs - {#x#})"
          using xin by simp
        then have "y = a \<or> y \<in># mset xs - {#x#}" using y by simp
        then show ?thesis
        proof
          assume "y = a"
          then show ?thesis using h xin assms by auto
        next
          assume "y \<in># mset xs - {#x#}"
          then show ?thesis using t xin Cons.IH by blast
        qed
      qed
    qed
  next
    assume r: "\<forall>x y. x \<in># mset (a # xs) \<longrightarrow> y \<in># mset (a # xs) - {#x#} \<longrightarrow> P x y"
    have h: "\<forall>y \<in> set xs. P a y"
    proof
      fix y assume "y \<in> set xs"
      then have "y \<in># mset (a # xs) - {#a#}" by simp
      moreover have "a \<in># mset (a # xs)" by simp
      ultimately show "P a y" using r by blast
    qed
    have "\<forall>x y. x \<in># mset xs \<longrightarrow> y \<in># mset xs - {#x#} \<longrightarrow> P x y"
    proof (intro allI impI)
      fix x y
      assume x: "x \<in># mset xs" and y: "y \<in># mset xs - {#x#}"
      have "mset (a # xs) - {#x#} = add_mset a (mset xs - {#x#})"
        using x by simp
      then have "y \<in># mset (a # xs) - {#x#}" using y by simp
      moreover have "x \<in># mset (a # xs)" using x by simp
      ultimately show "P x y" using r by blast
    qed
    then have "sorted_wrt P xs" using Cons.IH by simp
    then show "sorted_wrt P (a # xs)" using h by simp
  qed
qed

lemma sorted_wrt_symmetric_rearranged:
  assumes "\<And>a b. P a b \<Longrightarrow> P b a" and "mset ys = mset xs" and "sorted_wrt P xs"
  shows "sorted_wrt P ys"
  using assms(2,3) sorted_wrt_symmetric_mset [of P xs, OF assms(1)]
    sorted_wrt_symmetric_mset [of P ys, OF assms(1)] by simp

section \<open>Double values of the thresholds and of the sample\<close>

lemma binary64_RECOGNIZE_CONFIDENCE:
  "binary64 RECOGNIZE_CONFIDENCE = Fin (3602879701896397 / 36028797018963968)"
  using binary64_eval [of "- 4" "1 / 10"]
  by (simp add: binary64_consts RECOGNIZE_CONFIDENCE_def)

lemma binary64_DETECT_CONFIDENCE:
  "binary64 DETECT_CONFIDENCE = Fin (5404319552844595 / 18014398509481984)"
  using binary64_eval [of "- 2" "3 / 10"]
  by (simp add: binary64_consts DETECT_CONFIDENCE_def)

lemma binary64_X_OVERLAP:
  "binary64 X_OVERLAP = Fin (5404319552844595 / 18014398509481984)"
  using binary64_eval [of "- 2" "3 / 10"]
  by (simp add: binary64_consts X_OVERLAP_def)

lemma binary64_sample:
  "binary64 (- 1) = Fin (- 1)"
  "binary64 1 = Fin 1"
  "binary64 (1 / 2) = Fin (1 / 2)"
  "binary64 (1 / 4) = Fin (1 / 4)"
  "binary64 (7 / 8) = Fin (7 / 8)"
  "binary64 (4728779608739021 / 18014398509481984) = Fin (4728779608739021 / 18014398509481984)"
  "binary64 (22743178118221005 / 18014398509481984) = Fin (5685794529555251 / 4503599627370496)"
  "binary64 (37830236869912165 / 144115188075855872)
     = Fin (4728779608739021 / 18014398509481984)"
  using binary64_eval [of 0 "- 1"] binary64_eval [of 0 1] binary64_eval [of "- 1" "1 / 2"]
    binary64_eval [of "- 2" "1 / 4"] binary64_eval [of "- 1" "7 / 8"]
    binary64_eval [of "- 2" "4728779608739021 / 18014398509481984"]
    binary64_eval [of 0 "22743178118221005 / 18014398509481984"]
    binary64_eval [of "- 2" "37830236869912165 / 144115188075855872"]
  by (simp_all add: binary64_consts)

lemma on_grid_sample:
  "on_grid 0" "on_grid (- 1)" "on_grid 1" "on_grid (1 / 2)" "on_grid (1 / 4)"
  using binary64_on_grid [OF binary64_zero] binary64_on_grid [OF binary64_sample(1)]
    binary64_on_grid [OF binary64_sample(2)] binary64_on_grid [OF binary64_sample(3)]
    binary64_on_grid [OF binary64_sample(4)]
  by simp_all

lemma fl_sub_order_consistent:
  assumes "\<forall>c \<in> set cs. is_double (f c) \<and> is_fin (f c)"
  shows "consistent_on (\<lambda>a b. fl_sub (f a) (f b)) cs"
    and "consistent_on (\<lambda>a b. fl_sub (f b) (f a)) cs"
proof -
  have k: "fl_sub (f a) (f b) \<noteq> NaN
           \<and> js_gt (fl_sub (f a) (f b)) (Fin 0) = (num (f b) < num (f a))
           \<and> js_lt (fl_sub (f a) (f b)) (Fin 0) = (num (f a) < num (f b))"
    if a: "a \<in> set cs" and b: "b \<in> set cs" for a b
  proof -
    obtain x where x: "f a = Fin x" "on_grid x"
      using assms a by (cases "f a") auto
    obtain y where y: "f b = Fin y" "on_grid y"
      using assms b by (cases "f b") auto
    show ?thesis using fl_sub_sign [OF x(2) y(2)] by (simp add: x(1) y(1))
  qed
  show "consistent_on (\<lambda>a b. fl_sub (f a) (f b)) cs"
    unfolding consistent_on_def
    by (rule exI [of _ "\<lambda>c. num (f c)"]) (use k in blast)
  show "consistent_on (\<lambda>a b. fl_sub (f b) (f a)) cs"
    unfolding consistent_on_def
    by (rule exI [of _ "\<lambda>c. - num (f c)"]) (use k in simp)
qed

section \<open>Detection on absent or malformed output\<close>

lemma detectLoop_all_below:
  "\<forall>i \<in> set idxs. js_lt (at_num scores i) (binary64 DETECT_CONFIDENCE) \<Longrightarrow>
   detectLoop boxes scores scale origWidth origHeight idxs acc = Inr acc"
  by (induction idxs) simp_all

lemma mergeOverlappingBoxes_Nil: "mergeOverlappingBoxes [] = []"
  by (simp add: mergeOverlappingBoxes_def)

text \<open>
  C5, as stated, fails. The reducer raises \<open>TypeError\<close> on a missing result object, on an
  object without outputs, on an object with the single output \<open>scores\<close> (whose array is
  empty: the fallback then reads \<open>results[undefined].data\<close>), on a missing score array,
  and on a missing box array next to a score that passes the threshold; with an empty
  box array next to such a score it returns one region whose box is NaN throughout.
\<close>

theorem C5_malformed_output_counterexample:
  "detectTextRegions js_sort True (Fin 1) (Fin 640) (Fin 640) None = Inl TypeError
   \<and> detectTextRegions js_sort True (Fin 1) (Fin 640) (Fin 640) (Some []) = Inl TypeError
   \<and> detectTextRegions js_sort True (Fin 1) (Fin 640) (Fin 640)
        (Some [(''scores'', Output (Some []))]) = Inl TypeError
   \<and> detectTextRegions js_sort True (Fin 1) (Fin 640) (Fin 640)
        (Some [(''boxes'', Output (Some [])), (''scores'', Output None)]) = Inl TypeError
   \<and> detectTextRegions js_sort True (Fin 1) (Fin 640) (Fin 640)
        (Some [(''boxes'', Output None), (''scores'', Output (Some [Fin (3 / 4)]))])
      = Inl TypeError
   \<and> detectTextRegions js_sort True (Fin 1) (Fin 640) (Fin 640)
        (Some [(''boxes'', Output (Some [])), (''scores'', Output (Some [Fin (3 / 4)]))])
      = Inr [\<lparr> box = (NaN, NaN, NaN, NaN), score = Fin (3 / 4) \<rparr>]"
  by (simp add: detectTextRegions_def extractDetection_def get_prop_def prop_at_key_def
      data_of_def at_num_def binary64_DETECT_CONFIDENCE merge_eval js_sort_def fl_div_def)

text \<open>
  C5, amended. Let the two outputs the reducer selects be \<open>boxes\<close> and \<open>scores\<close> of the
  result object when it has both, and its first two properties otherwise. With a
  session: when both selected outputs are present and the score array is empty or holds
  only scores below DETECT_CONFIDENCE, the reducer returns the empty region list and
  does not throw, whatever the data of the box output are (missing and empty
  included). When a selected output is missing, when the score array is missing, or
  when the result object is missing, it raises \<open>TypeError\<close>.
\<close>

theorem C5_no_passing_score_gives_no_regions:
  assumes "sort_spec srt"
    and "(boxesOut, scoresOut)
           = (if get_prop r ''boxes'' \<noteq> NoValue \<and> get_prop r ''scores'' \<noteq> NoValue
              then (get_prop r ''boxes'', get_prop r ''scores'')
              else (prop_at_key r 0, prop_at_key r 1))"
  shows "(boxesOut \<noteq> NoValue \<and> scoresOut = Output (Some ss)
            \<and> (\<forall>s \<in> set ss. js_lt s (binary64 DETECT_CONFIDENCE)) \<longrightarrow>
            detectTextRegions srt True scale origWidth origHeight (Some r) = Inr [])
       \<and> (boxesOut = NoValue \<or> scoresOut = NoValue \<or> scoresOut = Output None \<longrightarrow>
            detectTextRegions srt True scale origWidth origHeight (Some r) = Inl TypeError)
       \<and> detectTextRegions srt True scale origWidth origHeight None = Inl TypeError"
proof -
  have e: "extractDetection (Some r)
             = (case data_of boxesOut of
                  Inl e \<Rightarrow> Inl e
                | Inr boxes \<Rightarrow>
                    (case data_of scoresOut of
                       Inl e \<Rightarrow> Inl e
                     | Inr scores \<Rightarrow> Inr (boxes, scores)))"
  proof (cases "get_prop r ''boxes'' \<noteq> NoValue \<and> get_prop r ''scores'' \<noteq> NoValue")
    case True
    then have b: "boxesOut = get_prop r ''boxes''" and s: "scoresOut = get_prop r ''scores''"
      using assms(2) by simp_all
    show ?thesis unfolding b s using True by (simp add: extractDetection_def)
  next
    case False
    then have b: "boxesOut = prop_at_key r 0" and s: "scoresOut = prop_at_key r 1"
      using assms(2) by auto
    show ?thesis unfolding b s using False by (auto simp add: extractDetection_def)
  qed
  have 1: "detectTextRegions srt True scale origWidth origHeight (Some r) = Inr []"
    if b: "boxesOut \<noteq> NoValue" and s: "scoresOut = Output (Some ss)"
      and l: "\<forall>s \<in> set ss. js_lt s (binary64 DETECT_CONFIDENCE)"
  proof -
    obtain bd where bd: "boxesOut = Output bd" using b by (cases boxesOut) simp_all
    have a: "\<forall>i \<in> set [0 ..< length ss]. js_lt (at_num ss i) (binary64 DETECT_CONFIDENCE)"
      using l by (simp add: at_num_def)
    have "detectLoop bd ss scale origWidth origHeight [0 ..< length ss] [] = Inr []"
      by (rule detectLoop_all_below [OF a])
    then show ?thesis
      by (simp add: detectTextRegions_def e bd s data_of_def mergeOverlappingBoxes_Nil
          sort_spec_Nil [OF assms(1)])
  qed
  have 2: "detectTextRegions srt True scale origWidth origHeight (Some r) = Inl TypeError"
    if "boxesOut = NoValue \<or> scoresOut = NoValue \<or> scoresOut = Output None"
    using that by (cases boxesOut) (auto simp add: detectTextRegions_def e data_of_def)
  have 3: "detectTextRegions srt True scale origWidth origHeight None = Inl TypeError"
    by (simp add: detectTextRegions_def extractDetection_def)
  show ?thesis using 1 2 3 by blast
qed

theorem C5_no_passing_score_gives_no_regions_witness:
  "sort_spec (js_sort :: (region \<Rightarrow> region \<Rightarrow> jsnum) \<Rightarrow> region list \<Rightarrow> region list)
   \<and> js_lt (Fin (1 / 4)) (binary64 DETECT_CONFIDENCE)
   \<and> js_lt (Fin (1 / 8)) (binary64 DETECT_CONFIDENCE)
   \<and> detectTextRegions js_sort True (Fin (1 / 2)) (Fin 1280) (Fin 720)
        (Some [(''boxes'', Output (Some [Fin 1, Fin 2, Fin 30, Fin 40])),
               (''scores'', Output (Some [Fin (1 / 4), Fin (1 / 8)]))]) = Inr []
   \<and> detectTextRegions js_sort True (Fin (1 / 2)) (Fin 1280) (Fin 720)
        (Some [(''output0'', Output None), (''output1'', Output (Some []))]) = Inr []
   \<and> detectTextRegions js_sort True (Fin (1 / 2)) (Fin 1280) (Fin 720)
        (Some [(''scores'', Output (Some []))]) = Inl TypeError"
proof -
  have h: "sort_spec (js_sort :: (region \<Rightarrow> region \<Rightarrow> jsnum) \<Rightarrow> region list \<Rightarrow> region list)"
    by (rule sort_spec_js_sort)
  have t: "js_lt (Fin (1 / 4)) (binary64 DETECT_CONFIDENCE)"
    "js_lt (Fin (1 / 8)) (binary64 DETECT_CONFIDENCE)"
    by (simp_all add: binary64_DETECT_CONFIDENCE)
  have 1: "detectTextRegions js_sort True (Fin (1 / 2)) (Fin 1280) (Fin 720)
        (Some [(''boxes'', Output (Some [Fin 1, Fin 2, Fin 30, Fin 40])),
               (''scores'', Output (Some [Fin (1 / 4), Fin (1 / 8)]))]) = Inr []"
    using C5_no_passing_score_gives_no_regions [OF h,
        of "Output (Some [Fin 1, Fin 2, Fin 30, Fin 40])"
           "Output (Some [Fin (1 / 4), Fin (1 / 8)])"
           "[(''boxes'', Output (Some [Fin 1, Fin 2, Fin 30, Fin 40])),
             (''scores'', Output (Some [Fin (1 / 4), Fin (1 / 8)]))]"
           "[Fin (1 / 4), Fin (1 / 8)]" "Fin (1 / 2)" "Fin 1280" "Fin 720"] t
    by (simp add: get_prop_def)
  have 2: "detectTextRegions js_sort True (Fin (1 / 2)) (Fin 1280) (Fin 720)
        (Some [(''output0'', Output None), (''output1'', Output (Some []))]) = Inr []"
    using C5_no_passing_score_gives_no_regions [OF h,
        of "Output None" "Output (Some [])"
           "[(''output0'', Output None), (''output1'', Output (Some []))]"
           "[]" "Fin (1 / 2)" "Fin 1280" "Fin 720"]
    by (simp add: get_prop_def prop_at_key_def)
  have 3: "detectTextRegions js_sort True (Fin (1 / 2)) (Fin 1280) (Fin 720)
        (Some [(''scores'', Output (Some []))]) = Inl TypeError"
    using C5_no_passing_score_gives_no_regions [OF h,
        of "Output (Some [])" NoValue "[(''scores'', Output (Some []))]"
           "[]" "Fin (1 / 2)" "Fin 1280" "Fin 720"]
    by (simp add: get_prop_def prop_at_key_def)
  show ?thesis using h t 1 2 3 by simp
qed

section \<open>Recognition: the accepted candidates\<close>

lemma js_min_commute: "js_min a b = js_min b a"
  by (cases a; cases b) auto

lemma js_max_commute: "js_max a b = js_max b a"
  by (cases a; cases b) auto

lemma exceeds_commute: "exceeds a b = exceeds b a"
proof -
  obtain a1 a2 where a: "xInterval a = (a1, a2)" by (cases "xInterval a")
  obtain b1 b2 where b: "xInterval b = (b1, b2)" by (cases "xInterval b")
  have "xOverlap a b = xOverlap b a"
    by (simp add: xOverlap_def a b js_min_commute [of a2 b2] js_max_commute [of a1 b1])
  moreover have "minWidth a b = minWidth b a"
    by (simp add: minWidth_def a b js_min_commute [of "fl_sub a2 a1"])
  ultimately show ?thesis by (simp add: exceeds_def)
qed

lemma dedupStep_separated:
  assumes "sorted_wrt (\<lambda>a b. \<not> exceeds a b) accepted"
  shows "sorted_wrt (\<lambda>a b. \<not> exceeds a b) (dedupStep candidate accepted)"
proof (cases "list_ex (\<lambda>other. exceeds candidate other) accepted")
  case True
  then show ?thesis using assms by (simp add: dedupStep_def)
next
  case False
  then have "\<forall>x \<in> set accepted. \<not> exceeds x candidate"
    using exceeds_commute by (auto simp add: list_ex_iff)
  then show ?thesis using False assms by (simp add: dedupStep_def sorted_wrt_append)
qed

lemma fold_dedupStep_separated:
  "sorted_wrt (\<lambda>a b. \<not> exceeds a b) accepted \<Longrightarrow>
   sorted_wrt (\<lambda>a b. \<not> exceeds a b) (fold dedupStep candidates accepted)"
proof (induction candidates arbitrary: accepted)
  case Nil
  then show ?case by simp
next
  case (Cons c candidates)
  show ?case using Cons.IH [OF dedupStep_separated [OF Cons.prems]] by simp
qed

lemma dedupStep_subset: "set (dedupStep c accepted) \<subseteq> insert c (set accepted)"
  by (auto simp add: dedupStep_def Let_def)

lemma fold_dedupStep_subset:
  "set (fold dedupStep candidates accepted) \<subseteq> set candidates \<union> set accepted"
proof (induction candidates arbitrary: accepted)
  case Nil
  then show ?case by simp
next
  case (Cons c candidates)
  show ?case using Cons.IH [of "dedupStep c accepted"] dedupStep_subset [of c accepted]
    by auto
qed

lemma candidateLoop_returns:
  assumes "\<forall>c \<in> set acc. is_double (fst (xInterval c))"
  shows "\<exists>cs. candidateLoop ls (Some bs) (Some ss) ew ow oh idxs acc = Inr cs
           \<and> (\<forall>c \<in> set cs. is_double (fst (xInterval c)))"
  using assms
proof (induction idxs arbitrary: acc)
  case Nil
  then show ?case by simp
next
  case (Cons i idxs)
  show ?case
  proof (cases "js_lt (at_num ss i) (binary64 RECOGNIZE_CONFIDENCE)")
    case True
    then show ?thesis using Cons.IH [OF Cons.prems] by simp
  next
    case False
    let ?c = "\<lparr> char = fromCharCode (ls ! i),
                bbox = (js_floor (fl_mul (fl_div (js_min (at_num bs (i * 4)) ew) ew) ow),
                        js_floor (fl_mul (fl_div (at_num bs (i * 4 + 1)) (Fin INPUT_HEIGHT)) oh),
                        js_floor (fl_mul (fl_div (js_min (at_num bs (i * 4 + 2)) ew) ew) ow),
                        js_floor (fl_mul (fl_div (at_num bs (i * 4 + 3)) (Fin INPUT_HEIGHT)) oh)),
                conf = at_num ss i,
                xInterval = (fl_mul (fl_div (js_min (at_num bs (i * 4)) ew) ew) ow,
                             fl_mul (fl_div (js_min (at_num bs (i * 4 + 2)) ew) ew) ow) \<rparr>"
    have "\<forall>c \<in> set (acc @ [?c]). is_double (fst (xInterval c))"
      using Cons.prems by (simp add: fl_mul_def is_double_fl)
    from Cons.IH [OF this] show ?thesis using False by (simp add: Let_def)
  qed
qed

lemma start_order_consistent:
  assumes "\<forall>c \<in> set cs. is_double (fst (xInterval c)) \<and> is_fin (fst (xInterval c))"
  shows "\<forall>a \<in> set cs. \<forall>b \<in> set cs.
           fl_sub (fst (xInterval a)) (fst (xInterval b)) \<noteq> NaN
           \<and> js_gt (fl_sub (fst (xInterval a)) (fst (xInterval b))) (Fin 0)
               = (num (fst (xInterval b)) < num (fst (xInterval a)))
           \<and> js_lt (fl_sub (fst (xInterval a)) (fst (xInterval b))) (Fin 0)
               = (num (fst (xInterval a)) < num (fst (xInterval b)))"
proof (intro ballI)
  fix a b
  assume a: "a \<in> set cs" and b: "b \<in> set cs"
  obtain x where x: "fst (xInterval a) = Fin x" "on_grid x"
    using assms a by (cases "fst (xInterval a)") auto
  obtain y where y: "fst (xInterval b) = Fin y" "on_grid y"
    using assms b by (cases "fst (xInterval b)") auto
  show "fl_sub (fst (xInterval a)) (fst (xInterval b)) \<noteq> NaN
           \<and> js_gt (fl_sub (fst (xInterval a)) (fst (xInterval b))) (Fin 0)
               = (num (fst (xInterval b)) < num (fst (xInterval a)))
           \<and> js_lt (fl_sub (fst (xInterval a)) (fst (xInterval b))) (Fin 0)
               = (num (fst (xInterval a)) < num (fst (xInterval b)))"
    using fl_sub_sign [OF x(2) y(2)] by (simp add: x(1) y(1))
qed

lemma sample_candidates:
  "candidateLoop sample_labels (Some sample_boxes) (Some sample_scores) (Fin 1) (Fin 1) (Fin 1)
     [0 ..< length sample_labels] [] = Inr (sample_kept @ [sample_dropped])"
  by (simp add: sample_labels_def sample_boxes_def sample_scores_def sample_kept_def
      sample_dropped_def upt_rec at_num_def Let_def binary64_RECOGNIZE_CONFIDENCE fl_div_def
      fl_mul_def binary64_sample binary64_zero fromCharCode_def INPUT_HEIGHT_def)

lemma sample_tests:
  "\<not> exceeds (sample_kept ! 1) (sample_kept ! 0)"
  "exceeds sample_dropped (sample_kept ! 1)"
  "\<not> exceeds sample_dropped (sample_kept ! 0)"
  by (simp_all add: sample_kept_def sample_dropped_def exceeds_def xOverlap_def minWidth_def
      fl_sub_def js_sub_def fl_mul_def binary64_X_OVERLAP binary64_sample binary64_zero
      js_gt_def)

lemma sample_dedup: "fold dedupStep (sample_kept @ [sample_dropped]) [] = sample_kept"
proof -
  have k: "sample_kept = [sample_kept ! 0, sample_kept ! 1]" by (simp add: sample_kept_def)
  have "fold dedupStep (sample_kept @ [sample_dropped]) []
          = fold dedupStep [sample_kept ! 0, sample_kept ! 1, sample_dropped] []"
    by (simp add: sample_kept_def)
  also have "\<dots> = [sample_kept ! 0, sample_kept ! 1]"
    using sample_tests by (simp add: dedupStep_def)
  finally show ?thesis using k by simp
qed

lemma sample_by_conf:
  assumes "sort_spec srt"
  shows "srt (\<lambda>a b. fl_sub (conf b) (conf a)) (sample_kept @ [sample_dropped])
           = sample_kept @ [sample_dropped]"
proof -
  have "\<forall>c \<in> set (sample_kept @ [sample_dropped]). is_double (conf c) \<and> is_fin (conf c)"
    by (simp add: sample_kept_def sample_dropped_def on_grid_sample)
  then have "consistent_on (\<lambda>a b. fl_sub (conf b) (conf a)) (sample_kept @ [sample_dropped])"
    by (rule fl_sub_order_consistent(2))
  then have "srt (\<lambda>a b. fl_sub (conf b) (conf a)) (sample_kept @ [sample_dropped])
          = js_sort (\<lambda>a b. fl_sub (conf b) (conf a)) (sample_kept @ [sample_dropped])"
    using assms by (simp add: sort_spec_consistent)
  also have "\<dots> = sample_kept @ [sample_dropped]"
    by (simp add: sample_kept_def sample_dropped_def js_sort_def fl_sub_sign on_grid_sample)
  finally show ?thesis .
qed

lemma sample_by_start:
  assumes "sort_spec srt"
  shows "srt (\<lambda>a b. fl_sub (fst (xInterval a)) (fst (xInterval b))) sample_kept = sample_kept"
proof -
  have "\<forall>c \<in> set sample_kept. is_double (fst (xInterval c)) \<and> is_fin (fst (xInterval c))"
    by (simp add: sample_kept_def on_grid_sample)
  then have "consistent_on (\<lambda>a b. fl_sub (fst (xInterval a)) (fst (xInterval b))) sample_kept"
    by (rule fl_sub_order_consistent(1))
  then have "srt (\<lambda>a b. fl_sub (fst (xInterval a)) (fst (xInterval b))) sample_kept
          = js_sort (\<lambda>a b. fl_sub (fst (xInterval a)) (fst (xInterval b))) sample_kept"
    using assms by (simp add: sort_spec_consistent)
  also have "\<dots> = sample_kept"
    by (simp add: sample_kept_def js_sort_def fl_sub_sign on_grid_sample)
  finally show ?thesis .
qed

lemma sample_decode:
  assumes "sort_spec srt"
  shows "decodeMeikiOCROutput srt (Some sample_labels) (Some sample_boxes) (Some sample_scores)
           (Fin 1) (Fin 1) (Fin 1) = Inr ([12354, 12356], sample_kept)"
proof -
  have "map char sample_kept = [12354, 12356]" by (simp add: sample_kept_def)
  then show ?thesis
    unfolding decodeMeikiOCROutput_def
    by (simp only: option.case sample_candidates sum.case Let_def
        sample_by_conf [OF assms] sample_dedup sample_by_start [OF assms])
qed


text \<open>
  C10, refuted as stated. On the sample the reducer keeps the first two characters and
  drops the third. The two it keeps overlap by 0.2625 (the binary64 value, which is
  above the decimal), and the narrower of them is 0.875 wide: the overlap is longer than
  0.3 times that width, with 0.3 read as the decimal or as the binary64 value. The
  reducer's test passes them because the product \<open>0.875 * 0.3\<close> rounds up to the very
  overlap, and the test is strict. The comparators are consistent on this input, so the
  result is the same under every engine's sort.
\<close>

theorem C10_rounded_test_keeps_longer_overlap_counterexample:
  "decodeMeikiOCROutput js_sort (Some sample_labels) (Some sample_boxes) (Some sample_scores)
     (Fin 1) (Fin 1) (Fin 1) = Inr ([12354, 12356], sample_kept)
   \<and> overlap_length (sample_kept ! 0) (sample_kept ! 1)
       = 4728779608739021 / 18014398509481984
   \<and> narrower_width (sample_kept ! 0) (sample_kept ! 1) = 7 / 8
   \<and> X_OVERLAP * narrower_width (sample_kept ! 0) (sample_kept ! 1)
       < overlap_length (sample_kept ! 0) (sample_kept ! 1)
   \<and> num (binary64 X_OVERLAP) * narrower_width (sample_kept ! 0) (sample_kept ! 1)
       < overlap_length (sample_kept ! 0) (sample_kept ! 1)"
proof -
  have o: "overlap_length (sample_kept ! 0) (sample_kept ! 1)
             = 4728779608739021 / 18014398509481984"
    by (simp add: overlap_length_def sample_kept_def)
  have n: "narrower_width (sample_kept ! 0) (sample_kept ! 1) = 7 / 8"
    by (simp add: narrower_width_def sample_kept_def)
  have b: "num (binary64 X_OVERLAP) = 5404319552844595 / 18014398509481984"
    by (simp add: binary64_X_OVERLAP)
  have x: "X_OVERLAP = 3 / 10" by (simp add: X_OVERLAP_def)
  show ?thesis
    unfolding o n b unfolding x by (simp add: sample_decode [OF sort_spec_js_sort])
qed

text \<open>
  C10, amended. For all arrays of labels, boxes and scores and all dimensions the reducer
  returns; any two characters it returns pass the test of its deduplication as the
  code computes it, in double precision and in either order: the rounded overlap is not
  greater than the rounded product of the narrower rounded width and 0.3 (false as soon
  as a number in it is NaN); and when every returned interval starts at a finite number
  the characters come in ascending order of their interval starts. The sort is any
  \<open>Array.prototype.sort\<close> the language allows.
\<close>

theorem C10_accepted_candidates_pass_rounded_test_and_sorted:
  assumes "sort_spec srt"
  shows "\<exists>chars. decodeMeikiOCROutput srt (Some labels) (Some boxes) (Some scores) ew ow oh
             = Inr (map char chars, chars)
         \<and> (\<forall>j < length chars. \<forall>i < j.
               \<not> exceeds (chars ! i) (chars ! j) \<and> \<not> exceeds (chars ! j) (chars ! i))
         \<and> ((\<forall>c \<in> set chars. is_fin (fst (xInterval c))) \<longrightarrow>
              (\<forall>j < length chars. \<forall>i < j. starts_before (chars ! i) (chars ! j)))"
proof -
  let ?byConf = "\<lambda>a b. fl_sub (conf b) (conf a)"
  let ?byStart = "\<lambda>a b. fl_sub (fst (xInterval a)) (fst (xInterval b))"
  obtain cs where cs: "candidateLoop labels (Some boxes) (Some scores) ew ow oh
                         [0 ..< length labels] [] = Inr cs"
    and dbl: "\<forall>c \<in> set cs. is_double (fst (xInterval c))"
    using candidateLoop_returns [of "[]"] by force
  define accepted where "accepted = fold dedupStep (srt ?byConf cs) []"
  define chars where "chars = srt ?byStart accepted"
  have r: "decodeMeikiOCROutput srt (Some labels) (Some boxes) (Some scores) ew ow oh
             = Inr (map char chars, chars)"
    by (simp add: decodeMeikiOCROutput_def cs Let_def chars_def accepted_def)
  have "sorted_wrt (\<lambda>a b. \<not> exceeds a b) accepted"
    unfolding accepted_def by (rule fold_dedupStep_separated) simp
  moreover have m: "mset chars = mset accepted"
    unfolding chars_def using assms by (rule sort_spec_mset)
  ultimately have sep: "sorted_wrt (\<lambda>a b. \<not> exceeds a b) chars"
    using sorted_wrt_symmetric_rearranged [of "\<lambda>a b. \<not> exceeds a b" chars accepted]
      exceeds_commute by blast
  have p: "\<forall>j < length chars. \<forall>i < j.
               \<not> exceeds (chars ! i) (chars ! j) \<and> \<not> exceeds (chars ! j) (chars ! i)"
  proof (intro allI impI)
    fix j i
    assume j: "j < length chars" and i: "i < j"
    have "\<not> exceeds (chars ! i) (chars ! j)"
      using sep i j by (simp add: sorted_wrt_iff_nth_less)
    then show "\<not> exceeds (chars ! i) (chars ! j) \<and> \<not> exceeds (chars ! j) (chars ! i)"
      using exceeds_commute [of "chars ! i" "chars ! j"] by simp
  qed
  have sub: "set chars \<subseteq> set cs"
  proof -
    have "set chars = set accepted" using m mset_eq_setD by blast
    also have "\<dots> \<subseteq> set (srt ?byConf cs)"
      unfolding accepted_def using fold_dedupStep_subset [of "srt ?byConf cs" "[]"] by simp
    also have "\<dots> = set cs" using assms by (rule sort_spec_set)
    finally show ?thesis .
  qed
  have s: "\<forall>j < length chars. \<forall>i < j. starts_before (chars ! i) (chars ! j)"
    if fin: "\<forall>c \<in> set chars. is_fin (fst (xInterval c))"
  proof -
    have sa: "set accepted = set chars" using m mset_eq_setD by metis
    have d: "\<forall>c \<in> set accepted. is_double (fst (xInterval c)) \<and> is_fin (fst (xInterval c))"
      using fin dbl sub sa by auto
    note k = start_order_consistent [OF d]
    have "consistent_on ?byStart accepted"
      unfolding consistent_on_def
      by (rule exI [of _ "\<lambda>c. num (fst (xInterval c))"]) (use k in blast)
    then have "chars = js_sort ?byStart accepted"
      unfolding chars_def using assms by (simp add: sort_spec_consistent)
    moreover have "sorted_wrt (\<lambda>a b. num (fst (xInterval a)) \<le> num (fst (xInterval b)))
                     (js_sort ?byStart accepted)"
      by (rule js_sort_sorted) (use k in blast)
    ultimately have o: "sorted_wrt (\<lambda>a b. num (fst (xInterval a)) \<le> num (fst (xInterval b)))
                          chars"
      by simp
    show ?thesis
    proof (intro allI impI)
      fix j i
      assume j: "j < length chars" and i: "i < j"
      have le: "num (fst (xInterval (chars ! i))) \<le> num (fst (xInterval (chars ! j)))"
        using o i j by (simp add: sorted_wrt_iff_nth_less)
      have "chars ! i \<in> set chars" "chars ! j \<in> set chars" using i j by simp_all
      then have fi: "is_fin (fst (xInterval (chars ! i)))"
        and fj: "is_fin (fst (xInterval (chars ! j)))"
        using fin by blast+
      obtain x where x: "fst (xInterval (chars ! i)) = Fin x"
        using fi by (cases "fst (xInterval (chars ! i))") simp_all
      obtain y where y: "fst (xInterval (chars ! j)) = Fin y"
        using fj by (cases "fst (xInterval (chars ! j))") simp_all
      show "starts_before (chars ! i) (chars ! j)"
        using le by (simp add: starts_before_def x y)
    qed
  qed
  show ?thesis using r p s by blast
qed

theorem C10_accepted_candidates_pass_rounded_test_and_sorted_witness:
  "sort_spec (js_sort :: (candidate \<Rightarrow> candidate \<Rightarrow> jsnum) \<Rightarrow> candidate list \<Rightarrow> candidate list)
   \<and> decodeMeikiOCROutput js_sort (Some sample_labels) (Some sample_boxes) (Some sample_scores)
       (Fin 1) (Fin 1) (Fin 1) = Inr ([12354, 12356], sample_kept)
   \<and> length sample_kept = 2
   \<and> \<not> exceeds (sample_kept ! 0) (sample_kept ! 1)
   \<and> \<not> exceeds (sample_kept ! 1) (sample_kept ! 0)
   \<and> is_fin (fst (xInterval (sample_kept ! 0)))
   \<and> is_fin (fst (xInterval (sample_kept ! 1)))
   \<and> starts_before (sample_kept ! 0) (sample_kept ! 1)"
proof -
  have h: "sort_spec (js_sort :: (candidate \<Rightarrow> candidate \<Rightarrow> jsnum) \<Rightarrow> candidate list
                        \<Rightarrow> candidate list)"
    by (rule sort_spec_js_sort)
  have d: "decodeMeikiOCROutput js_sort (Some sample_labels) (Some sample_boxes)
             (Some sample_scores) (Fin 1) (Fin 1) (Fin 1) = Inr ([12354, 12356], sample_kept)"
    by (rule sample_decode [OF h])
  have l: "length sample_kept = 2" by (simp add: sample_kept_def)
  have f: "\<forall>c \<in> set sample_kept. is_fin (fst (xInterval c))"
    by (simp add: sample_kept_def)
  from C10_accepted_candidates_pass_rounded_test_and_sorted [OF h, of sample_labels
      sample_boxes sample_scores "Fin 1" "Fin 1" "Fin 1"]
  have p: "(\<forall>j < length sample_kept. \<forall>i < j.
               \<not> exceeds (sample_kept ! i) (sample_kept ! j)
               \<and> \<not> exceeds (sample_kept ! j) (sample_kept ! i))"
    and s: "(\<forall>c \<in> set sample_kept. is_fin (fst (xInterval c))) \<longrightarrow>
              (\<forall>j < length sample_kept. \<forall>i < j.
                 starts_before (sample_kept ! i) (sample_kept ! j))"
    unfolding d by auto
  have "\<not> exceeds (sample_kept ! 0) (sample_kept ! 1)"
    "\<not> exceeds (sample_kept ! 1) (sample_kept ! 0)"
    using p [rule_format, of 1 0] l by simp_all
  moreover have "starts_before (sample_kept ! 0) (sample_kept ! 1)"
    using s [THEN mp, OF f, rule_format, of 1 0] l by simp
  moreover have "is_fin (fst (xInterval (sample_kept ! 0)))"
    "is_fin (fst (xInterval (sample_kept ! 1)))"
    by (simp_all add: sample_kept_def)
  ultimately show ?thesis using h d l by simp
qed

end
